theory Spec2Isabelle
  imports Main "HOL-Library.Multiset" "HOL-Library.Sublist" "HOL-Library.Monad_Syntax"
begin

section \<open>The logic-based explainer of \<^verbatim>\<open>logicxplainer.py\<close>\<close>

text \<open>
  The class \<^verbatim>\<open>LogicXplainer\<close> is abstract over two user-defined oracles, \<^verbatim>\<open>waxp\<close> and
  \<^verbatim>\<open>wcxp\<close>, and carries a \<^verbatim>\<open>verbose\<close> level. An object is a record of the two
  oracles (pure functions of the list they are handed: the \<^verbatim>\<open>custom_object\<close> and the
  \<^verbatim>\<open>additional_info\<close> they close over never change during a call) and of the level.
  Feature indices are Python integers.
\<close>

record LogicXplainer =
  waxp :: "int list \<Rightarrow> bool"
  wcxp :: "int list \<Rightarrow> bool"
  verbose :: int

text \<open>The exceptions that the list, pool and name operations of the source can raise.\<close>

datatype error = ValueError | AttributeError | UnboundLocalError

text \<open>
  What the source prints, one constructor per \<^verbatim>\<open>print\<close> statement. The elapsed time that
  the \<^verbatim>\<open>Runtime\<close> line shows is wall-clock time and is left out.
\<close>

datatype line =
    AXp_Del "int list"
  | AXp_Qxp "int list"
  | CXp_Del "int list"
  | CXp_Qxp "int list"
  | Runtime
  | Num_AXp nat
  | Num_CXp nat
  | Not_weak_AXp "int list"
  | Not_weak_CXp "int list"
  | Not_subset_minimal "int list"

subsection \<open>List removal\<close>

text \<open>\<^verbatim>\<open>list.remove(x)\<close>: drops the first occurrence, raises \<^verbatim>\<open>ValueError\<close> when there is none.\<close>

fun list_remove :: "'a \<Rightarrow> 'a list \<Rightarrow> error + 'a list" where
  "list_remove x [] = Inl ValueError"
| "list_remove x (y # ys) =
     (if x = y then Inr ys
      else (case list_remove x ys of Inl e \<Rightarrow> Inl e | Inr zs \<Rightarrow> Inr (y # zs)))"

subsection \<open>Deletion-based minimisation\<close>

text \<open>
  The loop of \<^verbatim>\<open>axp_del\<close> and \<^verbatim>\<open>cxp_del\<close>:
  \<^verbatim>\<open>for i in fix: tmp_fix = fix[:]; tmp_fix.remove(i); if oracle(tmp_fix): fix = tmp_fix\<close>.
  The \<^verbatim>\<open>for\<close> statement iterates over the list object that \<^verbatim>\<open>fix\<close> names when the loop
  starts; the assignment in the body rebinds the name to a new list and leaves the
  iterated one alone. So the first list argument is what is left of the initial list
  and the second is the current value of \<^verbatim>\<open>fix\<close>. The oracle comes with a state of its
  own that only a call changes and that the loop hands on untouched: whatever the
  oracle keeps track of, the loop can change it by calling the oracle only.
\<close>

fun del_loop :: "('s \<Rightarrow> int list \<Rightarrow> bool \<times> 's) \<Rightarrow> int list \<Rightarrow> int list \<Rightarrow> 's \<Rightarrow> error + (int list \<times> 's)" where
  "del_loop oracle [] fix s = Inr (fix, s)"
| "del_loop oracle (i # rest) fix s =
     (case list_remove i fix of
        Inl e \<Rightarrow> Inl e
      | Inr tmp_fix \<Rightarrow>
          (case oracle s tmp_fix of
             (holds, s') \<Rightarrow>
               if holds then del_loop oracle rest tmp_fix s'
               else del_loop oracle rest fix s'))"

text \<open>
  A user-defined oracle that counts the calls made to it, and one that records the
  lists it is called with, in the order of the calls.
\<close>

definition counted :: "(int list \<Rightarrow> bool) \<Rightarrow> nat \<Rightarrow> int list \<Rightarrow> bool \<times> nat" where
  "counted oracle n S = (oracle S, Suc n)"

definition logged :: "(int list \<Rightarrow> bool) \<Rightarrow> int list list \<Rightarrow> int list \<Rightarrow> bool \<times> int list list" where
  "logged oracle calls S = (oracle S, calls @ [S])"

text \<open>
  \<^verbatim>\<open>if self.verbose: if self.verbose == 1: print(result); print(runtime)\<close>, the tail of
  the four minimisers.
\<close>

definition report :: "int \<Rightarrow> line \<Rightarrow> line list" where
  "report v l = (if v \<noteq> 0 then (if v = 1 then [l] else []) @ [Runtime] else [])"

text \<open>
  A call returns the explanation, the number of calls that the oracle has counted and
  what the call printed.
\<close>

definition axp_del :: "LogicXplainer \<Rightarrow> int list \<Rightarrow> error + (int list \<times> nat \<times> line list)" where
  "axp_del self fixed =
     (case del_loop (counted (waxp self)) fixed fixed 0 of
        Inl e \<Rightarrow> Inl e
      | Inr (axp, n) \<Rightarrow> Inr (axp, n, report (verbose self) (AXp_Del axp)))"

definition cxp_del :: "LogicXplainer \<Rightarrow> int list \<Rightarrow> error + (int list \<times> nat \<times> line list)" where
  "cxp_del self universal =
     (case del_loop (counted (wcxp self)) universal universal 0 of
        Inl e \<Rightarrow> Inl e
      | Inr (cxp, n) \<Rightarrow> Inr (cxp, n, report (verbose self) (CXp_Del cxp)))"

subsection \<open>QuickXplain\<close>

text \<open>
  \<^verbatim>\<open>u = int(len(Z) / 2); Z1 = Z[:u]; Z2 = Z[u:]\<close>: the true division gives half the
  length as a float and \<^verbatim>\<open>int\<close> truncates it, so \<open>u\<close> is the floor of half the length.
\<close>

definition split_Z :: "int list \<Rightarrow> int list \<times> int list" where
  "split_Z Z = (let u = length Z div 2 in (take u Z, drop u Z))"

text \<open>
  The inner function \<^verbatim>\<open>qxp_recur(B, Z, newB)\<close> of \<^verbatim>\<open>axp_qxp\<close> and \<^verbatim>\<open>cxp_qxp\<close>, which
  differ in the oracle only. The recursion need not end, so the function lives in the
  option monad: \<open>None\<close> is a call that never returns.
\<close>

partial_function (option) qxp_recur ::
  "(int list \<Rightarrow> bool) \<Rightarrow> int list \<Rightarrow> int list \<Rightarrow> bool \<Rightarrow> int list option" where
  "qxp_recur oracle B Z newB =
     (if newB \<and> oracle B then Some []
      else if length Z = 1 then Some Z
      else
        (case split_Z Z of
           (Z1, Z2) \<Rightarrow> do {
             Q2 \<leftarrow> qxp_recur oracle (B @ Z1) Z2 (length Z1 > 0);
             Q1 \<leftarrow> qxp_recur oracle (B @ Q2) Z1 (length Q2 > 0);
             Some (Q1 @ Q2)
           }))"

definition axp_qxp :: "LogicXplainer \<Rightarrow> int list \<Rightarrow> (int list \<times> line list) option" where
  "axp_qxp self fixed =
     do {
       axp \<leftarrow> qxp_recur (waxp self) [] fixed False;
       Some (axp, report (verbose self) (AXp_Qxp axp))
     }"

definition cxp_qxp :: "LogicXplainer \<Rightarrow> int list \<Rightarrow> (int list \<times> line list) option" where
  "cxp_qxp self universal =
     do {
       cxp \<leftarrow> qxp_recur (wcxp self) [] universal False;
       Some (cxp, report (verbose self) (CXp_Qxp cxp))
     }"

declare qxp_recur.simps [code]

subsection \<open>Reading a result\<close>

text \<open>The returned value of a call, without the oracle-call count and the printed lines.\<close>

definition returned :: "error + ('a \<times> 'b) \<Rightarrow> error + 'a" where
  "returned r = (case r of Inl e \<Rightarrow> Inl e | Inr (a, b) \<Rightarrow> Inr a)"

subsection \<open>Verification of a candidate explanation\<close>

text \<open>
  The loop of \<^verbatim>\<open>check_axp\<close> and \<^verbatim>\<open>check_cxp\<close>: here \<^verbatim>\<open>fix\<close> is never rebound, and
  the first removal that keeps the oracle true ends the check with \<^verbatim>\<open>False\<close>.
\<close>

fun check_loop :: "(int list \<Rightarrow> bool) \<Rightarrow> int list \<Rightarrow> int list \<Rightarrow> error + bool" where
  "check_loop oracle [] fix = Inr True"
| "check_loop oracle (i # rest) fix =
     (case list_remove i fix of
        Inl e \<Rightarrow> Inl e
      | Inr tmp_fix \<Rightarrow> if oracle tmp_fix then Inr False else check_loop oracle rest fix)"

text \<open>Both checks print their verdict whatever the verbosity level is.\<close>

definition check_axp :: "LogicXplainer \<Rightarrow> int list \<Rightarrow> error + (bool \<times> line list)" where
  "check_axp self axp =
     (if \<not> waxp self axp then Inr (False, [Not_weak_AXp axp])
      else case check_loop (waxp self) axp axp of
             Inl e \<Rightarrow> Inl e
           | Inr ok \<Rightarrow> Inr (ok, if ok then [] else [Not_subset_minimal axp]))"

definition check_cxp :: "LogicXplainer \<Rightarrow> int list \<Rightarrow> error + (bool \<times> line list)" where
  "check_cxp self cxp =
     (if \<not> wcxp self cxp then Inr (False, [Not_weak_CXp cxp])
      else case check_loop (wcxp self) cxp cxp of
             Inl e \<Rightarrow> Inl e
           | Inr ok \<Rightarrow> Inr (ok, if ok then [] else [Not_subset_minimal cxp]))"

subsection \<open>The variable pool\<close>

text \<open>
  \<^verbatim>\<open>IDPool\<close> numbers the names it is asked for from 1, in the order of the first request.
  The pool is the list of the names registered so far, the name at position \<open>k\<close> having
  the identifier \<open>k + 1\<close>. The name \<^verbatim>\<open>u_i\<close> is represented by the feature index \<open>i\<close>
  itself: \<^verbatim>\<open>int(name.split('_')[1])\<close> gives \<open>i\<close> back.
\<close>

type_synonym idpool = "int list"

fun obj2id :: "idpool \<Rightarrow> int \<Rightarrow> int option" where
  "obj2id [] i = None"
| "obj2id (j # pool) i = (if i = j then Some 1 else map_option (\<lambda>v. v + 1) (obj2id pool i))"

text \<open>\<^verbatim>\<open>new_var(name)\<close>, that is \<^verbatim>\<open>vpool.id(name)\<close>: find the identifier or allot the next one.\<close>

definition new_var :: "idpool \<Rightarrow> int \<Rightarrow> int \<times> idpool" where
  "new_var pool i =
     (case obj2id pool i of
        Some v \<Rightarrow> (v, pool)
      | None \<Rightarrow> (int (length pool) + 1, pool @ [i]))"

text \<open>\<^verbatim>\<open>vpool.obj(v)\<close>: the name of an identifier, \<^verbatim>\<open>None\<close> for an unknown one.\<close>

definition vpool_obj :: "idpool \<Rightarrow> int \<Rightarrow> int option" where
  "vpool_obj pool v =
     (if 1 \<le> v \<and> v \<le> int (length pool) then Some (pool ! nat (v - 1)) else None)"

text \<open>\<^verbatim>\<open>[new_var(f'u_{i}') for i in xs]\<close>, and the registration loop over \<^verbatim>\<open>feats_idx\<close>.\<close>

fun new_vars :: "idpool \<Rightarrow> int list \<Rightarrow> int list \<times> idpool" where
  "new_vars pool [] = ([], pool)"
| "new_vars pool (i # rest) =
     (case new_var pool i of
        (v, pool') \<Rightarrow> (case new_vars pool' rest of (vs, pool'') \<Rightarrow> (v # vs, pool'')))"

subsection \<open>Enumeration of all explanations\<close>

text \<open>
  The loop over the literals of a model: a positive literal declares its feature
  universal. The name of every literal is looked up, also of a negative one, and
  \<^verbatim>\<open>.split\<close> on the \<^verbatim>\<open>None\<close> of an unknown identifier raises \<^verbatim>\<open>AttributeError\<close>.
\<close>

fun read_model :: "idpool \<Rightarrow> int list \<Rightarrow> error + int list" where
  "read_model pool [] = Inr []"
| "read_model pool (lit # model) =
     (case vpool_obj pool \<bar>lit\<bar> of
        None \<Rightarrow> Inl AttributeError
      | Some i \<Rightarrow>
          (case read_model pool model of
             Inl e \<Rightarrow> Inl e
           | Inr univ' \<Rightarrow> Inr ((if lit > 0 then [i] else []) @ univ')))"

text \<open>
  The state of the \<^verbatim>\<open>while\<close> loop: the pool, the clauses added to the solver so far (in
  the order of addition), the two result lists, the number of iterations completed
  and what the minimisers called by the loop have printed.
\<close>

record enum_state =
  vpool :: idpool
  clauses :: "int list list"
  axps :: "int list list"
  cxps :: "int list list"
  iterations :: nat
  printed :: "line list"

text \<open>
  \<^verbatim>\<open>if alg == 'del': cxp = self.cxp_del(univ) elif alg == 'qxp': cxp = self.cxp_qxp(univ)\<close>.
  With any other \<^verbatim>\<open>alg\<close> the local variable is unbound when the next statement reads it
  (already in the first iteration, so no value of an earlier iteration can be read).
\<close>

definition compute_cxp ::
  "LogicXplainer \<Rightarrow> string \<Rightarrow> int list \<Rightarrow> (error + (int list \<times> line list)) option" where
  "compute_cxp self alg univ' =
     (if alg = ''del'' then
        (case cxp_del self univ' of
           Inl e \<Rightarrow> Some (Inl e)
         | Inr (cxp, n, ls) \<Rightarrow> Some (Inr (cxp, ls)))
      else if alg = ''qxp'' then map_option Inr (cxp_qxp self univ')
      else Some (Inl UnboundLocalError))"

definition compute_axp ::
  "LogicXplainer \<Rightarrow> string \<Rightarrow> int list \<Rightarrow> (error + (int list \<times> line list)) option" where
  "compute_axp self alg fix =
     (if alg = ''del'' then
        (case axp_del self fix of
           Inl e \<Rightarrow> Some (Inl e)
         | Inr (axp, n, ls) \<Rightarrow> Some (Inr (axp, ls)))
      else if alg = ''qxp'' then map_option Inr (axp_qxp self fix)
      else Some (Inl UnboundLocalError))"

text \<open>
  The \<^verbatim>\<open>while slv.solve():\<close> loop. The SAT solver is an external library: \<open>solve\<close> stands
  for one \<^verbatim>\<open>slv.solve()\<close> followed by \<^verbatim>\<open>slv.get_model()\<close> on the clauses added so far,
  \<open>None\<close> when \<^verbatim>\<open>solve()\<close> is false.
\<close>

partial_function (option) enum_loop ::
  "LogicXplainer \<Rightarrow> (int list list \<Rightarrow> int list option) \<Rightarrow> int list \<Rightarrow> string \<Rightarrow> enum_state
     \<Rightarrow> (error + enum_state) option" where
  "enum_loop self solve feats_idx alg st =
     (case solve (clauses st) of
        None \<Rightarrow> Some (Inr st)
      | Some model \<Rightarrow>
          (case read_model (vpool st) model of
             Inl e \<Rightarrow> Some (Inl e)
           | Inr univ' \<Rightarrow>
               let fix = filter (\<lambda>i. i \<notin> set univ') feats_idx in
               if wcxp self univ' then
                 (case compute_cxp self alg univ' of
                    None \<Rightarrow> None
                  | Some (Inl e) \<Rightarrow> Some (Inl e)
                  | Some (Inr (cxp, ls)) \<Rightarrow>
                      (case new_vars (vpool st) cxp of
                         (vs, pool) \<Rightarrow>
                           enum_loop self solve feats_idx alg
                             (st\<lparr>vpool := pool,
                                 clauses := clauses st @ [map uminus vs],
                                 cxps := cxps st @ [cxp],
                                 iterations := Suc (iterations st),
                                 printed := printed st @ ls\<rparr>)))
               else
                 (case compute_axp self alg fix of
                    None \<Rightarrow> None
                  | Some (Inl e) \<Rightarrow> Some (Inl e)
                  | Some (Inr (axp, ls)) \<Rightarrow>
                      (case new_vars (vpool st) axp of
                         (vs, pool) \<Rightarrow>
                           enum_loop self solve feats_idx alg
                             (st\<lparr>vpool := pool,
                                 clauses := clauses st @ [vs],
                                 axps := axps st @ [axp],
                                 iterations := Suc (iterations st),
                                 printed := printed st @ ls\<rparr>)))))"

declare enum_loop.simps [code]

text \<open>
  \<^verbatim>\<open>enum(feats_idx, alg)\<close> returns the two lists; the model also gives the number of
  iterations of the loop and the printed lines.
\<close>

definition enum ::
  "LogicXplainer \<Rightarrow> (int list list \<Rightarrow> int list option) \<Rightarrow> int list \<Rightarrow> string
     \<Rightarrow> (error + ((int list list \<times> int list list) \<times> nat \<times> line list)) option" where
  "enum self solve feats_idx alg =
     (case enum_loop self solve feats_idx alg
             \<lparr>vpool = snd (new_vars [] feats_idx), clauses = [], axps = [], cxps = [],
              iterations = 0, printed = []\<rparr> of
        None \<Rightarrow> None
      | Some (Inl e) \<Rightarrow> Some (Inl e)
      | Some (Inr st) \<Rightarrow>
          Some (Inr ((axps st, cxps st), iterations st,
                     printed st @
                       (if verbose self \<noteq> 0
                        then [Num_AXp (length (axps st)), Num_CXp (length (cxps st)), Runtime]
                        else []))))"

subsection \<open>The contract of the SAT solver\<close>

text \<open>
  The solver knows the variables \<open>1, \<dots>, n\<close>, where \<open>n\<close> is the largest variable of a
  clause added so far. A model lists one literal for each of them, in this order, and
  makes a literal of every clause true.
\<close>

definition nof_vars :: "int list list \<Rightarrow> nat" where
  "nof_vars cs = fold (\<lambda>c n. fold (\<lambda>l m. max m (nat \<bar>l\<bar>)) c n) cs 0"

definition satisfies :: "int list \<Rightarrow> int list list \<Rightarrow> bool" where
  "satisfies m cs = (\<forall>c \<in> set cs. \<exists>l \<in> set c. l \<in> set m)"

definition is_model :: "int list list \<Rightarrow> int list \<Rightarrow> bool" where
  "is_model cs m \<longleftrightarrow>
     length m = nof_vars cs \<and> (\<forall>k < length m. \<bar>m ! k\<bar> = int k + 1) \<and> satisfies m cs"

definition sound_solver :: "(int list list \<Rightarrow> int list option) \<Rightarrow> bool" where
  "sound_solver solve \<longleftrightarrow> (\<forall>cs m. solve cs = Some m \<longrightarrow> is_model cs m)"

text \<open>
  A reference solver for running the loop on concrete inputs: it tries every assignment
  to the known variables, all false first.
\<close>

fun assignments :: "nat \<Rightarrow> int list list" where
  "assignments 0 = [[]]"
| "assignments (Suc k) =
     concat (map (\<lambda>m. [m @ [- int (Suc k)], m @ [int (Suc k)]]) (assignments k))"

definition first_model :: "int list list \<Rightarrow> int list option" where
  "first_model cs = find (\<lambda>m. satisfies m cs) (assignments (nof_vars cs))"

subsection \<open>The contract of the oracles\<close>

text \<open>An oracle is monotone when it stays true on every list with more elements.\<close>

definition monotone_oracle :: "(int list \<Rightarrow> bool) \<Rightarrow> bool" where
  "monotone_oracle oracle \<longleftrightarrow> (\<forall>T T'. set T \<subseteq> set T' \<longrightarrow> oracle T \<longrightarrow> oracle T')"

text \<open>
  The two oracles are dual on a feature list when a list of universal features is a
  weak CXp exactly if the features left fixed are not a weak AXp.
\<close>

definition dual_oracles :: "LogicXplainer \<Rightarrow> int list \<Rightarrow> bool" where
  "dual_oracles self feats_idx \<longleftrightarrow>
     (\<forall>U. wcxp self U \<longleftrightarrow> \<not> waxp self (filter (\<lambda>i. i \<notin> set U) feats_idx))"

text \<open>The oracle of the first concrete scenario of the specification.\<close>

definition scenario_waxp :: "int list \<Rightarrow> bool" where
  "scenario_waxp S \<longleftrightarrow> 1 \<in> set S \<or> (2 \<in> set S \<and> 3 \<in> set S)"

definition scenario_wcxp :: "int list \<Rightarrow> bool" where
  "scenario_wcxp U \<longleftrightarrow> \<not> scenario_waxp (filter (\<lambda>i. i \<notin> set U) [1, 2, 3])"

definition scenario :: "int \<Rightarrow> LogicXplainer" where
  "scenario v = \<lparr>waxp = scenario_waxp, wcxp = scenario_wcxp, verbose = v\<rparr>"

text \<open>
  An instance whose prediction no feature can change: every list of fixed features is
  a weak AXp, also the empty one, and no list of universal features is a weak CXp.
\<close>

definition constant_prediction :: "int \<Rightarrow> LogicXplainer" where
  "constant_prediction v = \<lparr>waxp = (\<lambda>S. True), wcxp = (\<lambda>U. False), verbose = v\<rparr>"

text \<open>The state of the loop without the printed lines.\<close>

definition unprinted :: "enum_state \<Rightarrow> idpool \<times> int list list \<times> int list list \<times> int list list \<times> nat" where
  "unprinted st = (vpool st, clauses st, axps st, cxps st, iterations st)"

text \<open>
  The invariant of the loop under a sound solver: the pool is the one built from
  \<^verbatim>\<open>feats_idx\<close> and never grows, every explanation found so far consists of features
  and has its blocking clause among the clauses, no explanation was found twice (as a
  set), every iteration has appended one explanation, and the clauses mention known
  variables only.
\<close>

definition enum_inv :: "int list \<Rightarrow> enum_state \<Rightarrow> bool" where
  "enum_inv feats_idx st \<longleftrightarrow>
     vpool st = snd (new_vars [] feats_idx)
     \<and> (\<forall>c \<in> set (cxps st). set c \<subseteq> set feats_idx
            \<and> map (\<lambda>i. - the (obj2id (vpool st) i)) c \<in> set (clauses st))
     \<and> (\<forall>a \<in> set (axps st). set a \<subseteq> set feats_idx
            \<and> map (\<lambda>i. the (obj2id (vpool st) i)) a \<in> set (clauses st))
     \<and> distinct (map set (cxps st)) \<and> distinct (map set (axps st))
     \<and> iterations st = length (axps st) + length (cxps st)
     \<and> (\<forall>c \<in> set (clauses st). \<forall>l \<in> set c. 1 \<le> \<bar>l\<bar> \<and> \<bar>l\<bar> \<le> int (length (vpool st)))"

text \<open>
  Two monotone oracles that are not each other's dual: feature 1 alone is sufficient
  for the prediction, and yet freeing feature 2 alone is said to change it.
\<close>

definition unrelated_oracles :: "int \<Rightarrow> LogicXplainer" where
  "unrelated_oracles v = \<lparr>waxp = (\<lambda>S. 1 \<in> set S), wcxp = (\<lambda>U. 2 \<in> set U), verbose = v\<rparr>"

text \<open>
  The total assignments to the variables \<open>1, \<dots>, k\<close> (given as the set of the variables
  that are true) that satisfy every clause: the search space that is left to the loop.
\<close>

definition total_models :: "nat \<Rightarrow> int list list \<Rightarrow> int set set" where
  "total_models k cs =
     {\<sigma>. \<sigma> \<subseteq> {1..int k} \<and> (\<forall>c \<in> set cs. \<exists>l \<in> set c. (0 < l \<and> l \<in> \<sigma>) \<or> (l < 0 \<and> - l \<notin> \<sigma>))}"

text \<open>
  What one iteration of the deletion loop leaves of the current list when it visits
  the feature \<open>i\<close>.
\<close>

definition kept :: "(int list \<Rightarrow> bool) \<Rightarrow> int list \<Rightarrow> int \<Rightarrow> int list" where
  "kept oracle fix i = (if oracle (remove1 i fix) then remove1 i fix else fix)"

section \<open>Properties\<close>

subsection \<open>List removal and the two loops over single removals\<close>

lemma list_remove_eq: "x \<in> set xs \<Longrightarrow> list_remove x xs = Inr (remove1 x xs)"
  by (induction xs) auto

lemma list_remove_absent: "x \<notin> set xs \<Longrightarrow> list_remove x xs = Inl ValueError"
  by (induction xs) auto

text \<open>A call of the counting and of the recording oracle inside the deletion loop.\<close>

lemma case_counted [simp]:
  "(case counted w n S of (holds, s') \<Rightarrow> f holds s') = f (w S) (Suc n)"
  by (simp add: counted_def)

lemma case_logged [simp]:
  "(case logged w calls S of (holds, s') \<Rightarrow> f holds s') = f (w S) (calls @ [S])"
  by (simp add: logged_def)

text \<open>
  The deletion loop never raises: every element still to visit is in the current list
  often enough. The counting oracle is called once per element visited.
\<close>

lemma del_loop_total:
  "mset rest \<subseteq># mset fx \<Longrightarrow> \<exists>A. del_loop (counted w) rest fx n = Inr (A, n + length rest)"
proof (induction rest arbitrary: fx n)
  case Nil
  then show ?case by simp
next
  case (Cons i rest)
  from Cons.prems have i_in: "i \<in> set fx"
    by (metis mset_subset_eq_insertD set_mset_mset mset.simps(2))
  from Cons.prems have sub1: "mset rest \<subseteq># mset (remove1 i fx)"
    by (simp add: insert_subset_eq_iff)
  from Cons.prems have sub2: "mset rest \<subseteq># mset fx"
    by (metis mset.simps(2) mset_subset_eq_insertD subset_mset.less_imp_le)
  show ?case
    using Cons.IH[OF sub1, of "Suc n"] Cons.IH[OF sub2, of "Suc n"] i_in
    by (simp add: list_remove_eq)
qed

lemma check_loop_eq:
  "set rest \<subseteq> set fx \<Longrightarrow>
     check_loop w rest fx = Inr (\<forall>i \<in> set rest. \<not> w (remove1 i fx))"
  by (induction rest) (auto simp: list_remove_eq)

subsection \<open>QuickXplain on an empty candidate list\<close>

text \<open>
  A call that returns has a non-empty candidate list or stops at the test of the base:
  with \<open>Z = []\<close> and no test, the length is not 1, both halves are empty again and the
  first recursive call is the same call.
\<close>

lemma qxp_recur_empty:
  assumes "qxp_recur w B Z newB = Some Q"
  shows "Z \<noteq> [] \<or> (newB \<and> w B)"
proof (rule qxp_recur.raw_induct
    [where P = "\<lambda>w B Z newB Q. Z \<noteq> [] \<or> (newB \<and> w B)", OF _ assms], goal_cases)
  case (1 f w B Z newB Q)
  show ?case
  proof (rule ccontr)
    assume "\<not> ?thesis"
    with 1(2) obtain Q2 where "f w B [] False = Some Q2"
      by (auto split: if_splits bind_splits simp: split_Z_def)
    from 1(1)[OF this] show False by simp
  qed
qed

lemma qxp_recur_Nil: "qxp_recur w B [] False = None"
  using qxp_recur_empty[of w B "[]" False] by (cases "qxp_recur w B [] False") auto

subsection \<open>Correctness of the deletion loop\<close>

text \<open>
  Whatever the oracle is, the loop returns a subsequence of the current list and keeps
  the oracle true. With a monotone oracle the result is subset-minimal: the invariant
  is that an element still to visit occurs as often in the current list as in the rest
  of the iteration, and that every other element of the current list is needed.
\<close>

lemma subseq_remove1: "subseq (remove1 x xs) xs"
  by (induction xs) auto

lemma subseq_set: "subseq xs ys \<Longrightarrow> set xs \<subseteq> set ys"
  by (auto elim: list_emb_set)

lemma del_loop_sound:
  "del_loop (counted w) rest fx n = Inr (A, m) \<Longrightarrow> subseq A fx \<and> (w fx \<longrightarrow> w A)"
proof (induction rest arbitrary: fx n)
  case Nil
  then show ?case by simp
next
  case (Cons i rest)
  show ?case
  proof (cases "i \<in> set fx")
    case False
    with Cons.prems show ?thesis by (simp add: list_remove_absent)
  next
    case True
    show ?thesis
    proof (cases "w (remove1 i fx)")
      case True
      with Cons.prems \<open>i \<in> set fx\<close> have "del_loop (counted w) rest (remove1 i fx) (Suc n) = Inr (A, m)"
        by (simp add: list_remove_eq)
      from Cons.IH[OF this] True show ?thesis
        using subseq_remove1[of i fx] by (meson subseq_order.order_trans)
    next
      case False
      with Cons.prems \<open>i \<in> set fx\<close> have "del_loop (counted w) rest fx (Suc n) = Inr (A, m)"
        by (simp add: list_remove_eq)
      from Cons.IH[OF this] show ?thesis .
    qed
  qed
qed

lemma set_remove1_twice: "Suc 0 < count_list xs x \<Longrightarrow> set (remove1 x xs) = set xs"
proof -
  assume a: "Suc 0 < count_list xs x"
  then have "x \<in> set xs" by (metis count_notin not_less_zero)
  with a have "0 < count_list (remove1 x xs) x" by simp
  then have "x \<in> set (remove1 x xs)" by (metis count_notin less_numeral_extra(3))
  then show ?thesis
    by (metis \<open>x \<in> set xs\<close> in_set_remove1 set_remove1_subset subsetI subset_antisym)
qed

lemma set_remove1_mono: "set (remove1 x (remove1 i xs)) \<subseteq> set (remove1 x xs)"
  by (metis remove1_commute set_remove1_subset)

lemma del_loop_minimal:
  assumes mono: "monotone_oracle w"
  shows "del_loop (counted w) rest fx n = Inr (A, m) \<Longrightarrow> w fx
    \<Longrightarrow> \<forall>x \<in> set rest. count_list rest x = count_list fx x
    \<Longrightarrow> \<forall>x \<in> set fx. x \<notin> set rest \<longrightarrow> \<not> w (remove1 x fx)
    \<Longrightarrow> \<forall>x \<in> set A. \<not> w (remove1 x A)"
proof (induction rest arbitrary: fx n)
  case Nil
  then show ?case by simp
next
  case (Cons i rest)
  from Cons.prems(3) have cnt_i: "count_list fx i = Suc (count_list rest i)" by simp
  then have i_in: "i \<in> set fx" by (metis count_notin nat.simps(3))
  show ?case
  proof (cases "w (remove1 i fx)")
    case True
    with Cons.prems(1) i_in have run: "del_loop (counted w) rest (remove1 i fx) (Suc n) = Inr (A, m)"
      by (simp add: list_remove_eq)
    have J: "\<forall>x \<in> set rest. count_list rest x = count_list (remove1 i fx) x"
      using Cons.prems(3) i_in by auto
    have I: "\<forall>x \<in> set (remove1 i fx). x \<notin> set rest \<longrightarrow> \<not> w (remove1 x (remove1 i fx))"
    proof (intro ballI impI)
      fix x assume x: "x \<in> set (remove1 i fx)" "x \<notin> set rest"
      show "\<not> w (remove1 x (remove1 i fx))"
      proof (cases "x = i")
        case True
        with x(2) cnt_i have "count_list fx i = Suc 0" by simp
        with i_in have "count_list (remove1 i fx) i = 0" by simp
        with x(1) True show ?thesis by (metis count_notin count_list_0_iff)
      next
        case False
        with x have "x \<in> set fx" "x \<notin> set (i # rest)" by (auto dest: notin_set_remove1)
        with Cons.prems(4) have "\<not> w (remove1 x fx)" by blast
        with mono set_remove1_mono[of x i fx] show ?thesis
          unfolding monotone_oracle_def by blast
      qed
    qed
    from Cons.IH[OF run True J I] show ?thesis .
  next
    case False
    with Cons.prems(1) i_in have run: "del_loop (counted w) rest fx (Suc n) = Inr (A, m)"
      by (simp add: list_remove_eq)
    have i_notin: "i \<notin> set rest"
    proof
      assume "i \<in> set rest"
      then have "0 < count_list rest i" by (metis count_notin count_list_0_iff not_gr_zero)
      with cnt_i have "Suc 0 < count_list fx i" by simp
      then have "set (remove1 i fx) = set fx" by (rule set_remove1_twice)
      with mono Cons.prems(2) have "w (remove1 i fx)"
        unfolding monotone_oracle_def by (metis subset_refl)
      with False show False ..
    qed
    have J: "\<forall>x \<in> set rest. count_list rest x = count_list fx x"
    proof
      fix x assume x: "x \<in> set rest"
      with i_notin have "x \<noteq> i" by auto
      moreover from x Cons.prems(3) have "count_list (i # rest) x = count_list fx x" by simp
      ultimately show "count_list rest x = count_list fx x" by simp
    qed
    have I: "\<forall>x \<in> set fx. x \<notin> set rest \<longrightarrow> \<not> w (remove1 x fx)"
      using Cons.prems(4) False by auto
    from Cons.IH[OF run Cons.prems(2) J I] show ?thesis .
  qed
qed

lemma del_loop_correct:
  assumes "monotone_oracle w" "w S"
  shows "\<exists>A. del_loop (counted w) S S 0 = Inr (A, length S) \<and> subseq A S \<and> w A
            \<and> (\<forall>x \<in> set A. \<not> w (remove1 x A))"
proof -
  obtain A where A: "del_loop (counted w) S S 0 = Inr (A, 0 + length S)"
    using del_loop_total[of S S w 0] by auto
  from del_loop_sound[OF A] assms(2) have "subseq A S" "w A" by auto
  moreover from del_loop_minimal[OF assms(1) A assms(2)] have "\<forall>x \<in> set A. \<not> w (remove1 x A)"
    by simp
  ultimately show ?thesis using A by simp
qed

subsection \<open>Correctness of QuickXplain\<close>

text \<open>
  A call that returns gives a subsequence of the candidates. On a non-empty candidate
  list the call returns; with a monotone oracle that is true on base and candidates
  together it is true on the base and the result, and the result is subset-minimal
  over the base if the base is tested or known not to satisfy the oracle.
\<close>

lemma split_Z_props:
  assumes "split_Z Z = (Z1, Z2)"
  shows "Z = Z1 @ Z2" "length Z1 = length Z div 2" "length Z2 = (length Z + 1) div 2"
  using assms by (auto simp: split_Z_def Let_def)

lemma qxp_recur_subseq:
  assumes "qxp_recur w B Z newB = Some Q"
  shows "subseq Q Z"
proof (rule qxp_recur.raw_induct[where P = "\<lambda>w B Z newB Q. subseq Q Z", OF _ assms], goal_cases)
  case (1 f w B Z newB Q)
  show ?case
  proof (cases "newB \<and> w B")
    case True
    with 1(2) show ?thesis by auto
  next
    case nb: False
    show ?thesis
    proof (cases "length Z = 1")
      case True
      with nb 1(2) show ?thesis by auto
    next
      case False
      obtain Z1 Z2 where sp: "split_Z Z = (Z1, Z2)" by (cases "split_Z Z")
      with nb False 1(2) obtain Q2 Q1 where
        q2: "f w (B @ Z1) Z2 (length Z1 > 0) = Some Q2" and
        q1: "f w (B @ Q2) Z1 (length Q2 > 0) = Some Q1" and
        q: "Q = Q1 @ Q2"
        by (auto split: bind_splits)
      from 1(1)[OF q2] 1(1)[OF q1] have "subseq (Q1 @ Q2) (Z1 @ Z2)"
        by (rule_tac list_emb_append_mono) 
      with q split_Z_props(1)[OF sp] show ?thesis by simp
    qed
  qed
qed

lemma qxp_recur_correct:
  assumes mono: "monotone_oracle w"
  shows "Z \<noteq> [] \<Longrightarrow> w (B @ Z) \<Longrightarrow>
         \<exists>Q. qxp_recur w B Z newB = Some Q \<and> subseq Q Z \<and> w (B @ Q)
              \<and> ((newB \<or> \<not> w B) \<longrightarrow> (\<forall>x \<in> set Q. \<not> w (B @ remove1 x Q)))"
proof (induction "length Z" arbitrary: B Z newB rule: less_induct)
  case less
  show ?case
  proof (cases "newB \<and> w B")
    case True
    then show ?thesis by (subst qxp_recur.simps) simp
  next
    case nb: False
    show ?thesis
    proof (cases "length Z = 1")
      case True
      then obtain z where z: "Z = [z]" by (cases Z) auto
      have eq: "qxp_recur w B Z newB = Some Z"
        using nb True by (subst qxp_recur.simps) auto
      show ?thesis using eq less.prems(2) nb z by auto
    next
      case False
      with less.prems(1) have len2: "2 \<le> length Z"
        by (cases Z) (auto simp: Suc_le_eq)
      obtain Z1 Z2 where sp: "split_Z Z = (Z1, Z2)" by (cases "split_Z Z")
      note p = split_Z_props[OF sp]
      from p(2,3) len2 have l1: "0 < length Z1" "0 < length Z2"
        and lt: "length Z1 < length Z" "length Z2 < length Z"
        by linarith+
      from l1 have ne: "Z1 \<noteq> []" "Z2 \<noteq> []" by simp_all
      from less.prems(2) p(1) have w2: "w ((B @ Z1) @ Z2)" by simp
      from less.hyps[OF lt(2) ne(2) w2, of True]
      obtain Q2 where q2: "qxp_recur w (B @ Z1) Z2 True = Some Q2" "subseq Q2 Z2"
        "w ((B @ Z1) @ Q2)" "\<forall>x \<in> set Q2. \<not> w ((B @ Z1) @ remove1 x Q2)" by auto
      from q2(3) mono have w1: "w ((B @ Q2) @ Z1)"
        unfolding monotone_oracle_def by (metis append.assoc set_append sup_commute sup.left_commute subset_refl)
      from less.hyps[OF lt(1) ne(1) w1, of "length Q2 > 0"]
      obtain Q1 where q1: "qxp_recur w (B @ Q2) Z1 (length Q2 > 0) = Some Q1" "subseq Q1 Z1"
        "w ((B @ Q2) @ Q1)"
        "(length Q2 > 0 \<or> \<not> w (B @ Q2)) \<longrightarrow> (\<forall>x \<in> set Q1. \<not> w ((B @ Q2) @ remove1 x Q1))" by auto
      have eq: "qxp_recur w B Z newB = Some (Q1 @ Q2)"
        using nb False sp q2(1) q1(1) ne(1) by (subst qxp_recur.simps) auto
      have sub: "subseq (Q1 @ Q2) Z"
        using q1(2) q2(2) p(1) by (simp add: list_emb_append_mono)
      have wq: "w (B @ Q1 @ Q2)"
        using q1(3) mono unfolding monotone_oracle_def
        by (metis append.assoc set_append sup_commute sup.left_commute subset_refl)
      have minimal: "\<forall>x \<in> set (Q1 @ Q2). \<not> w (B @ remove1 x (Q1 @ Q2))" if nwB: "\<not> w B"
      proof
        fix x assume x: "x \<in> set (Q1 @ Q2)"
        from nwB have pre: "length Q2 > 0 \<or> \<not> w (B @ Q2)" by (cases Q2) auto
        show "\<not> w (B @ remove1 x (Q1 @ Q2))"
        proof (cases "x \<in> set Q1")
          case True
          with q1(4) pre have "\<not> w ((B @ Q2) @ remove1 x Q1)" by blast
          moreover have "set (B @ remove1 x Q1 @ Q2) \<subseteq> set ((B @ Q2) @ remove1 x Q1)" by auto
          ultimately show ?thesis using True mono unfolding monotone_oracle_def
            by (metis remove1_append)
        next
          case False
          with x have "x \<in> set Q2" by simp
          with q2(4) have "\<not> w ((B @ Z1) @ remove1 x Q2)" by blast
          moreover have "set (B @ Q1 @ remove1 x Q2) \<subseteq> set ((B @ Z1) @ remove1 x Q2)"
            using subseq_set[OF q1(2)] by auto
          ultimately show ?thesis using False mono unfolding monotone_oracle_def
            by (metis remove1_append)
        qed
      qed
      from nb have "(newB \<or> \<not> w B) \<longrightarrow> \<not> w B" by blast
      with eq sub wq minimal show ?thesis by blast
    qed
  qed
qed

subsection \<open>The claims on single calls\<close>

text \<open>
  C4, as the code has it: a step of \<open>qxp_recur\<close> on a candidate list \<open>Z\<close> of at least two
  elements that does not stop at the test of the base splits \<open>Z\<close> into a first half
  \<open>Z1\<close> of \<open>\<lfloor>|Z|/2\<rfloor>\<close> elements and a second half \<open>Z2\<close> of \<open>\<lceil>|Z|/2\<rceil>\<close> elements, minimises
  \<open>Z2\<close> first, with the base \<open>B @ Z1\<close> flagged as grown, and then \<open>Z1\<close> with the base
  \<open>B @ Q2\<close>, where \<open>Q2\<close> is the result of the first call. The function is the one of both
  \<open>axp_qxp\<close> and \<open>cxp_qxp\<close>.
\<close>

theorem qxp_recur_split:
  assumes "2 \<le> length Z"
  shows "case split_Z Z of (Z1, Z2) \<Rightarrow>
           Z = Z1 @ Z2 \<and> length Z1 = length Z div 2 \<and> length Z2 = (length Z + 1) div 2
           \<and> qxp_recur oracle B Z newB =
               (if newB \<and> oracle B then Some []
                else do {
                  Q2 \<leftarrow> qxp_recur oracle (B @ Z1) Z2 True;
                  Q1 \<leftarrow> qxp_recur oracle (B @ Q2) Z1 (Q2 \<noteq> []);
                  Some (Q1 @ Q2)
                })"
proof -
  from assms have "length Z \<noteq> 1" "0 < length Z div 2" "Z \<noteq> []" by auto
  then show ?thesis
    by (subst qxp_recur.simps) (auto simp: split_Z_def Let_def)
qed

theorem qxp_recur_split_witness:
  "2 \<le> length [1, 2, 3 :: int]
   \<and> (case split_Z [1, 2, 3] of (Z1, Z2) \<Rightarrow>
         [1, 2, 3] = Z1 @ Z2 \<and> length Z1 = 1 \<and> length Z2 = 2
         \<and> qxp_recur scenario_waxp [] [1, 2, 3] False =
             do {
               Q2 \<leftarrow> qxp_recur scenario_waxp ([] @ Z1) Z2 True;
               Q1 \<leftarrow> qxp_recur scenario_waxp ([] @ Q2) Z1 (Q2 \<noteq> []);
               Some (Q1 @ Q2)
             })"
proof -
  have h: "2 \<le> length [1, 2, 3 :: int]" by simp
  from qxp_recur_split[OF h, of scenario_waxp "[]" False] h show ?thesis
    by (simp add: split_Z_def)
qed

text \<open>
  C4, as the specification has it, fails on three candidates: the first half has one
  element, not two.
\<close>

theorem split_sizes_counterexample:
  "length (fst (split_Z [1, 2, 3])) \<noteq> (length [1, 2, 3 :: int] + 1) div 2"
  by (simp add: split_Z_def)

text \<open>
  C5, as the code has it: with the oracle of scenario 1, \<open>axp_del\<close> on \<open>[1, 2, 3]\<close>
  returns \<open>[2, 3]\<close>. Feature 1 is visited first and can go, since 2 and 3 are still
  fixed; after that neither 2 nor 3 can.
\<close>

theorem scenario_axp_del:
  "axp_del (scenario v) [1, 2, 3] = Inr ([2, 3], 3, report v (AXp_Del [2, 3]))"
  by (simp add: axp_del_def scenario_def scenario_waxp_def)

text \<open>C5, as the specification has it, fails: the set returned is not \<open>{1}\<close>.\<close>

theorem scenario_axp_del_counterexample:
  "map_sum id set (returned (axp_del (scenario 0) [1, 2, 3])) \<noteq> Inr {1}"
  by (simp add: axp_del_def scenario_def scenario_waxp_def returned_def)

text \<open>
  C6: \<open>check_axp\<close> returns true exactly if the candidate is a weak AXp and no removal
  of a single element (of its first occurrence) leaves a weak AXp; in particular it
  returns false when the candidate is no weak AXp and when some removal keeps the
  oracle true. \<open>check_cxp\<close> does the same with \<open>wcxp\<close>. Neither raises.
\<close>

theorem check_axp_iff:
  "(\<exists>ls. check_axp self a =
            Inr (waxp self a \<and> (\<forall>i \<in> set a. \<not> waxp self (remove1 i a)), ls))
   \<and> (\<exists>ls. check_cxp self c =
            Inr (wcxp self c \<and> (\<forall>i \<in> set c. \<not> wcxp self (remove1 i c)), ls))"
  by (simp add: check_axp_def check_cxp_def check_loop_eq)

theorem check_axp_iff_witness:
  "(\<exists>ls. check_axp (scenario 0) [1, 2] = Inr (False, ls))
   \<and> (\<exists>ls. check_cxp (scenario 0) [1, 2] = Inr (True, ls))"
  using check_axp_iff[of "scenario 0" "[1, 2]" "[1, 2]"]
  by (simp add: scenario_def scenario_waxp_def scenario_wcxp_def)

text \<open>
  What the deletion loop returns and which calls it makes: the result is the initial
  list after every element of it has been visited in turn, the counting oracle is
  called once per element, and the recording oracle shows that the \<open>k\<close>-th call is on
  the current list without the \<open>k\<close>-th element of the initial list.
\<close>

lemma mset_rest_kept:
  assumes "mset (i # rest) \<subseteq># mset fx"
  shows "mset rest \<subseteq># mset (kept w fx i)"
proof -
  from assms have "mset rest \<subseteq># mset (remove1 i fx)"
    by (simp add: insert_subset_eq_iff)
  moreover from assms have "mset rest \<subseteq># mset fx"
    by (metis mset.simps(2) mset_subset_eq_insertD subset_mset.less_imp_le)
  ultimately show ?thesis by (simp add: kept_def)
qed

lemma mset_Cons_member:
  assumes "mset (i # rest) \<subseteq># mset fx"
  shows "i \<in> set fx"
  using assms by (metis mset_subset_eq_insertD set_mset_mset mset.simps(2))

lemma del_loop_counted_result:
  "mset rest \<subseteq># mset fx \<Longrightarrow>
     del_loop (counted w) rest fx n = Inr (foldl (kept w) fx rest, n + length rest)"
proof (induction rest arbitrary: fx n)
  case Nil
  then show ?case by simp
next
  case (Cons i rest)
  note i_in = mset_Cons_member[OF Cons.prems]
  have run: "del_loop (counted w) (i # rest) fx n
      = del_loop (counted w) rest (kept w fx i) (Suc n)"
    using i_in by (simp add: list_remove_eq kept_def)
  show ?case
    unfolding run Cons.IH[OF mset_rest_kept[OF Cons.prems]] by simp
qed

lemma del_loop_logged_result:
  "mset rest \<subseteq># mset fx \<Longrightarrow>
     del_loop (logged w) rest fx calls =
       Inr (foldl (kept w) fx rest,
            calls @ map (\<lambda>k. remove1 (rest ! k) (foldl (kept w) fx (take k rest)))
                      [0..<length rest])"
proof (induction rest arbitrary: fx calls)
  case Nil
  then show ?case by simp
next
  case (Cons i rest)
  note i_in = mset_Cons_member[OF Cons.prems]
  have run: "del_loop (logged w) (i # rest) fx calls
      = del_loop (logged w) rest (kept w fx i) (calls @ [remove1 i fx])"
    using i_in by (simp add: list_remove_eq kept_def)
  have idx: "map (\<lambda>k. remove1 ((i # rest) ! k) (foldl (kept w) fx (take k (i # rest))))
                [0..<length (i # rest)]
      = remove1 i fx # map (\<lambda>k. remove1 (rest ! k) (foldl (kept w) (kept w fx i) (take k rest)))
                [0..<length rest]"
    by (simp add: map_upt_Suc del: upt_Suc)
  show ?case
    unfolding run Cons.IH[OF mset_rest_kept[OF Cons.prems]] idx by simp
qed

text \<open>
  C8: \<open>axp_del\<close> on a list \<open>S\<close> of \<open>n\<close> elements returns what is left of \<open>S\<close> after one
  visit of each element, and the oracle has then been called exactly \<open>n\<close> times: the
  count is kept by the oracle and grows by one with each call, and the calls are, in
  this order, one for each element of \<open>S\<close>, on the current list without that element.
  On a one-element list \<open>[x]\<close> that is a weak AXp while the empty list is none, \<open>axp_del\<close>
  returns \<open>[x]\<close> after one call.
\<close>

theorem axp_del_oracle_calls:
  "axp_del self S =
     Inr (foldl (kept (waxp self)) S S, length S,
          report (verbose self) (AXp_Del (foldl (kept (waxp self)) S S)))
   \<and> del_loop (logged (waxp self)) S S [] =
       Inr (foldl (kept (waxp self)) S S,
            map (\<lambda>k. remove1 (S ! k) (foldl (kept (waxp self)) S (take k S))) [0..<length S])
   \<and> (waxp self [x] \<and> \<not> waxp self [] \<longrightarrow>
        axp_del self [x] = Inr ([x], 1, report (verbose self) (AXp_Del [x])))"
proof -
  have c: "del_loop (counted (waxp self)) S S 0 = Inr (foldl (kept (waxp self)) S S, 0 + length S)"
    by (rule del_loop_counted_result) simp
  have l: "del_loop (logged (waxp self)) S S [] =
       Inr (foldl (kept (waxp self)) S S,
            [] @ map (\<lambda>k. remove1 (S ! k) (foldl (kept (waxp self)) S (take k S))) [0..<length S])"
    by (rule del_loop_logged_result) simp
  have one: "waxp self [x] \<and> \<not> waxp self [] \<longrightarrow>
        axp_del self [x] = Inr ([x], 1, report (verbose self) (AXp_Del [x]))"
    by (simp add: axp_del_def)
  from c l one show ?thesis by (simp add: axp_del_def)
qed

theorem axp_del_oracle_calls_witness:
  "axp_del (scenario 0) [1, 2, 3] = Inr ([2, 3], 3, [])
   \<and> del_loop (logged (waxp (scenario 0))) [1, 2, 3] [1, 2, 3] []
       = Inr ([2, 3], [[2, 3], [3], [2]])
   \<and> waxp (scenario 0) [1] \<and> \<not> waxp (scenario 0) []
   \<and> axp_del (scenario 0) [1] = Inr ([1], 1, [])"
proof -
  have k: "foldl (kept (waxp (scenario 0))) [1, 2, 3] [1, 2, 3] = [2, 3]"
    by (simp add: kept_def scenario_def scenario_waxp_def)
  have q: "map (\<lambda>k. remove1 ([1, 2, 3 :: int] ! k)
             (foldl (kept (waxp (scenario 0))) [1, 2, 3] (take k [1, 2, 3]))) [0..<length [1, 2, 3 :: int]]
           = [[2, 3], [3], [2]]"
    by (simp add: kept_def scenario_def scenario_waxp_def upt_rec)
  have o: "waxp (scenario 0) [1] \<and> \<not> waxp (scenario 0) []"
    by (simp add: scenario_def scenario_waxp_def)
  from axp_del_oracle_calls[of "scenario 0" "[1, 2, 3]" 1] o show ?thesis
    unfolding k q by (simp add: report_def scenario_def)
qed

text \<open>
  C10: on the empty list the two deletion minimisers return the empty list without
  an oracle call, and the two QuickXplain minimisers never return: \<open>qxp_recur\<close> on an
  empty candidate list with the flag false recurses on the same arguments, whatever
  the base is.
\<close>

theorem empty_candidate_list:
  "axp_del self [] = Inr ([], 0, report (verbose self) (AXp_Del []))
   \<and> cxp_del self [] = Inr ([], 0, report (verbose self) (CXp_Del []))
   \<and> axp_qxp self [] = None
   \<and> cxp_qxp self [] = None
   \<and> qxp_recur oracle B [] False = None"
  by (simp add: axp_del_def cxp_del_def axp_qxp_def cxp_qxp_def qxp_recur_Nil)

subsection \<open>The four minimisers on a weak explanation\<close>

text \<open>
  With a monotone oracle that holds on the input, both deletion minimisers return a
  subset-minimal sublist on which the oracle holds. The QuickXplain minimisers do so
  if the oracle is false on the empty list.
\<close>

lemma axp_del_minimal:
  assumes "monotone_oracle (waxp self)" "waxp self S"
  shows "\<exists>A ls. axp_del self S = Inr (A, length S, ls) \<and> subseq A S \<and> waxp self A
            \<and> (\<forall>x \<in> set A. \<not> waxp self (remove1 x A))"
  using del_loop_correct[OF assms] by (auto simp: axp_del_def)

lemma cxp_del_minimal:
  assumes "monotone_oracle (wcxp self)" "wcxp self S"
  shows "\<exists>A ls. cxp_del self S = Inr (A, length S, ls) \<and> subseq A S \<and> wcxp self A
            \<and> (\<forall>x \<in> set A. \<not> wcxp self (remove1 x A))"
  using del_loop_correct[OF assms] by (auto simp: cxp_del_def)

lemma axp_qxp_minimal:
  assumes "monotone_oracle (waxp self)" "waxp self S" "\<not> waxp self []"
  shows "\<exists>A ls. axp_qxp self S = Some (A, ls) \<and> subseq A S \<and> waxp self A
            \<and> (\<forall>x \<in> set A. \<not> waxp self (remove1 x A))"
proof -
  from assms(2,3) have "S \<noteq> []" by auto
  from qxp_recur_correct[OF assms(1) this, of "[]" False] assms(2,3)
  show ?thesis by (auto simp: axp_qxp_def)
qed

lemma cxp_qxp_minimal:
  assumes "monotone_oracle (wcxp self)" "wcxp self S" "\<not> wcxp self []"
  shows "\<exists>A ls. cxp_qxp self S = Some (A, ls) \<and> subseq A S \<and> wcxp self A
            \<and> (\<forall>x \<in> set A. \<not> wcxp self (remove1 x A))"
proof -
  from assms(2,3) have "S \<noteq> []" by auto
  from qxp_recur_correct[OF assms(1) this, of "[]" False] assms(2,3)
  show ?thesis by (auto simp: cxp_qxp_def)
qed

lemma monotone_constant: "monotone_oracle (\<lambda>S. b)"
  by (simp add: monotone_oracle_def)

text \<open>
  C1 fails for \<open>axp_qxp\<close> where the oracle holds on the empty list, as it does for an
  instance with a constant prediction: the oracle is monotone (\<open>monotone_constant\<close>)
  and holds on \<open>[1, 2]\<close>, and \<open>axp_qxp\<close> returns \<open>[1]\<close>, from which 1 can be removed
  with the oracle still true; \<open>check_axp\<close> rejects the result as not subset-minimal,
  and \<open>axp_del\<close> returns the empty list on the same input. The top-level call passes
  the flag \<open>False\<close>, so the empty base is never tested, and the last single candidate
  is returned without a test.
\<close>

theorem axp_qxp_constant_prediction:
  "waxp (constant_prediction 0) [1, 2]
   \<and> axp_qxp (constant_prediction 0) [1, 2] = Some ([1], [])
   \<and> waxp (constant_prediction 0) (remove1 1 [1])
   \<and> check_axp (constant_prediction 0) [1] = Inr (False, [Not_subset_minimal [1]])
   \<and> axp_del (constant_prediction 0) [1, 2] = Inr ([], 2, [])"
  by (simp add: constant_prediction_def monotone_constant axp_qxp_def qxp_recur.simps
      split_Z_def report_def check_axp_def axp_del_def)

subsection \<open>The variable pool and the models of the solver\<close>

lemma obj2id_SomeD:
  "obj2id pool i = Some v \<Longrightarrow> 1 \<le> v \<and> v \<le> int (length pool) \<and> pool ! nat (v - 1) = i"
proof (induction pool arbitrary: v)
  case Nil
  then show ?case by simp
next
  case (Cons j pool)
  show ?case
  proof (cases "i = j")
    case True
    with Cons.prems show ?thesis by simp
  next
    case False
    with Cons.prems obtain v' where v': "obj2id pool i = Some v'" "v = v' + 1" by auto
    from Cons.IH[OF v'(1)] v'(2) show ?thesis
      by (auto simp: nat_diff_distrib nth_Cons split: nat.splits)
  qed
qed

lemma obj2id_None_iff: "obj2id pool i = None \<longleftrightarrow> i \<notin> set pool"
  by (induction pool) auto

lemma obj2id_vpool_obj: "obj2id pool i = Some v \<Longrightarrow> vpool_obj pool v = Some i"
  using obj2id_SomeD[of pool i v] by (simp add: vpool_obj_def)

lemma vpool_obj_in_pool: "vpool_obj pool v = Some i \<Longrightarrow> i \<in> set pool"
  by (auto simp: vpool_obj_def split: if_splits)

lemma vpool_obj_obj2id:
  assumes "distinct pool" "vpool_obj pool v = Some i"
  shows "obj2id pool i = Some v"
proof -
  from assms(2) have v: "1 \<le> v" "v \<le> int (length pool)" "pool ! nat (v - 1) = i"
    by (auto simp: vpool_obj_def split: if_splits)
  then have "i \<in> set pool" by (metis assms(2) vpool_obj_in_pool)
  then obtain v' where v': "obj2id pool i = Some v'"
    using obj2id_None_iff[of pool i] by (cases "obj2id pool i") auto
  from obj2id_SomeD[OF v'] have "1 \<le> v'" "v' \<le> int (length pool)" "pool ! nat (v' - 1) = i"
    by auto
  then have "nat (v' - 1) < length pool" "nat (v - 1) < length pool"
    "pool ! nat (v' - 1) = pool ! nat (v - 1)"
    using v by auto
  with assms(1) have "nat (v' - 1) = nat (v - 1)"
    by (simp add: nth_eq_iff_index_eq)
  with v(1) \<open>1 \<le> v'\<close> have "v' = v" by simp
  with v' show ?thesis by simp
qed

lemma new_vars_known:
  "set xs \<subseteq> set pool \<Longrightarrow> new_vars pool xs = (map (\<lambda>i. the (obj2id pool i)) xs, pool)"
proof (induction xs)
  case Nil
  then show ?case by simp
next
  case (Cons i xs)
  from Cons.prems have "i \<in> set pool" by simp
  then obtain v where v: "obj2id pool i = Some v"
    using obj2id_None_iff[of pool i] by (cases "obj2id pool i") auto
  from Cons.prems have "set xs \<subseteq> set pool" by simp
  from Cons.IH[OF this] v show ?case by (simp add: new_var_def)
qed

lemma snd_new_vars_Cons:
  "snd (new_vars pool (i # xs)) = snd (new_vars (snd (new_var pool i)) xs)"
  by (simp split: prod.splits)

lemma snd_new_var:
  "snd (new_var pool i) = (if i \<in> set pool then pool else pool @ [i])"
  using obj2id_None_iff[of pool i] by (cases "obj2id pool i") (simp_all add: new_var_def)

lemma new_vars_pool:
  "distinct pool \<Longrightarrow>
     distinct (snd (new_vars pool xs)) \<and> set (snd (new_vars pool xs)) = set pool \<union> set xs"
proof (induction xs arbitrary: pool)
  case Nil
  then show ?case by simp
next
  case (Cons i xs)
  let ?p = "snd (new_var pool i)"
  from Cons.prems have d: "distinct ?p" by (simp add: snd_new_var)
  have s: "set ?p = insert i (set pool)" by (auto simp: snd_new_var)
  from Cons.IH[OF d] s show ?case
    unfolding snd_new_vars_Cons by simp
qed

lemma read_model_set:
  "read_model pool m = Inr u \<Longrightarrow> set u = {i. \<exists>l \<in> set m. 0 < l \<and> vpool_obj pool l = Some i}"
proof (induction m arbitrary: u)
  case Nil
  then show ?case by simp
next
  case (Cons l m)
  from Cons.prems obtain i where i: "vpool_obj pool \<bar>l\<bar> = Some i"
    by (cases "vpool_obj pool \<bar>l\<bar>") auto
  with Cons.prems obtain u' where u': "read_model pool m = Inr u'"
    by (cases "read_model pool m") auto
  with i Cons.prems have u: "u = (if l > 0 then [i] else []) @ u'" by simp
  note IH = Cons.IH[OF u']
  show ?case
  proof (cases "l > 0")
    case True
    then have "\<bar>l\<bar> = l" by simp
    with i have "vpool_obj pool l = Some i" by simp
    with True u IH show ?thesis by auto
  next
    case False
    with u IH show ?thesis by auto
  qed
qed

lemma is_model_consistent:
  assumes "is_model cs m" "l \<in> set m" "- l \<in> set m"
  shows False
proof -
  from assms(2) obtain k1 where k1: "k1 < length m" "m ! k1 = l" by (auto simp: in_set_conv_nth)
  from assms(3) obtain k2 where k2: "k2 < length m" "m ! k2 = - l" by (auto simp: in_set_conv_nth)
  from assms(1) k1 k2 have "\<bar>l\<bar> = int k1 + 1" "\<bar>- l\<bar> = int k2 + 1"
    by (auto simp: is_model_def)
  then have "k1 = k2" by simp
  with k1 k2 have "l = 0" by simp
  with \<open>\<bar>l\<bar> = int k1 + 1\<close> show False by simp
qed

lemma assignments_shape:
  "m \<in> set (assignments k) \<Longrightarrow> length m = k \<and> (\<forall>j < k. \<bar>m ! j\<bar> = int j + 1)"
proof (induction k arbitrary: m)
  case 0
  then show ?case by simp
next
  case (Suc k)
  then obtain m' where m': "m' \<in> set (assignments k)"
    and m: "m = m' @ [- int (Suc k)] \<or> m = m' @ [int (Suc k)]"
    by auto
  from Suc.IH[OF m'] have len: "length m' = k" and sh: "\<forall>j < k. \<bar>m' ! j\<bar> = int j + 1"
    by simp_all
  have "\<bar>m ! j\<bar> = int j + 1" if "j < Suc k" for j
  proof (cases "j < k")
    case True
    with m len sh show ?thesis by (auto simp: nth_append)
  next
    case False
    with that have "j = k" by simp
    with m len show ?thesis by (auto simp: nth_append)
  qed
  with m len show ?case by auto
qed

lemma first_model_sound: "sound_solver first_model"
proof -
  have "is_model cs m" if "first_model cs = Some m" for cs m
  proof -
    from that have "m \<in> set (assignments (nof_vars cs))" "satisfies m cs"
      unfolding first_model_def by (auto simp: find_Some_iff)
    with assignments_shape[of m "nof_vars cs"] show ?thesis
      by (simp add: is_model_def)
  qed
  then show ?thesis by (simp add: sound_solver_def)
qed

subsection \<open>An invariant rule for the enumeration loop\<close>

lemma enum_loop_invariant:
  assumes run: "enum_loop self solve feats alg st = Some (Inr st')"
    and init: "I st"
    and cxp_step: "\<And>st m univ' cxp ls vs pool.
        I st \<Longrightarrow> solve (clauses st) = Some m \<Longrightarrow> read_model (vpool st) m = Inr univ' \<Longrightarrow>
        wcxp self univ' \<Longrightarrow> compute_cxp self alg univ' = Some (Inr (cxp, ls)) \<Longrightarrow>
        new_vars (vpool st) cxp = (vs, pool) \<Longrightarrow>
        I (st\<lparr>vpool := pool, clauses := clauses st @ [map uminus vs], cxps := cxps st @ [cxp],
              iterations := Suc (iterations st), printed := printed st @ ls\<rparr>)"
    and axp_step: "\<And>st m univ' axp ls vs pool.
        I st \<Longrightarrow> solve (clauses st) = Some m \<Longrightarrow> read_model (vpool st) m = Inr univ' \<Longrightarrow>
        \<not> wcxp self univ' \<Longrightarrow>
        compute_axp self alg (filter (\<lambda>i. i \<notin> set univ') feats) = Some (Inr (axp, ls)) \<Longrightarrow>
        new_vars (vpool st) axp = (vs, pool) \<Longrightarrow>
        I (st\<lparr>vpool := pool, clauses := clauses st @ [vs], axps := axps st @ [axp],
              iterations := Suc (iterations st), printed := printed st @ ls\<rparr>)"
  shows "I st' \<and> solve (clauses st') = None"
proof -
  note r = enum_loop.raw_induct[where P = "\<lambda>self' solve' feats' alg' st r.
        self' = self \<and> solve' = solve \<and> feats' = feats \<and> alg' = alg \<longrightarrow> I st \<longrightarrow>
        (\<forall>s. r = Inr s \<longrightarrow> I s \<and> solve (clauses s) = None)", OF _ run]
  have "self = self \<and> solve = solve \<and> feats = feats \<and> alg = alg \<longrightarrow> I st \<longrightarrow>
        (\<forall>s. (Inr st' :: error + enum_state) = Inr s \<longrightarrow> I s \<and> solve (clauses s) = None)"
  proof (rule r, goal_cases)
    case (1 f self' solve' feats' alg' st r)
    show ?case
    proof (intro impI allI, elim conjE)
      fix s
      assume eqs: "self' = self" "solve' = solve" "feats' = feats" "alg' = alg"
        and I: "I st" and r: "r = Inr s"
      note body = 1(2)[unfolded eqs r]
      note IH = 1(1)[unfolded eqs]
      show "I s \<and> solve (clauses s) = None"
      proof (cases "solve (clauses st)")
        case None
        with body I show ?thesis by simp
      next
        case (Some m)
        show ?thesis
        proof (cases "read_model (vpool st) m")
          case (Inl e)
          with Some body show ?thesis by simp
        next
          case (Inr univ')
          show ?thesis
          proof (cases "wcxp self univ'")
            case True
            with Some Inr body obtain cxp ls where
              c: "compute_cxp self alg univ' = Some (Inr (cxp, ls))"
              by (auto simp: Let_def split: option.splits sum.splits)
            obtain vs pool where nv: "new_vars (vpool st) cxp = (vs, pool)"
              by (cases "new_vars (vpool st) cxp")
            let ?st = "st\<lparr>vpool := pool, clauses := clauses st @ [map uminus vs],
              cxps := cxps st @ [cxp], iterations := Suc (iterations st),
              printed := printed st @ ls\<rparr>"
            from Some Inr True c nv body have rec: "f self solve feats alg ?st = Some (Inr s)"
              by (simp add: Let_def)
            from cxp_step[OF I Some Inr True c nv] IH[OF rec] show ?thesis by simp
          next
            case False
            with Some Inr body obtain axp ls where
              c: "compute_axp self alg (filter (\<lambda>i. i \<notin> set univ') feats) = Some (Inr (axp, ls))"
              by (auto simp: Let_def split: option.splits sum.splits)
            obtain vs pool where nv: "new_vars (vpool st) axp = (vs, pool)"
              by (cases "new_vars (vpool st) axp")
            let ?st = "st\<lparr>vpool := pool, clauses := clauses st @ [vs],
              axps := axps st @ [axp], iterations := Suc (iterations st),
              printed := printed st @ ls\<rparr>"
            from Some Inr False c nv body have rec: "f self solve feats alg ?st = Some (Inr s)"
              by (simp add: Let_def)
            from axp_step[OF I Some Inr False c nv] IH[OF rec] show ?thesis by simp
          qed
        qed
      qed
    qed
  qed
  with init show ?thesis by simp
qed

subsection \<open>What the loop gets from the minimisers\<close>

lemma compute_cxp_subseq:
  assumes "compute_cxp self alg u = Some (Inr (cxp, ls))"
  shows "subseq cxp u"
proof (cases "alg = ''del''")
  case True
  with assms obtain n where "del_loop (counted (wcxp self)) u u 0 = Inr (cxp, n)"
    by (auto simp: compute_cxp_def cxp_del_def split: sum.splits)
  from del_loop_sound[OF this] show ?thesis by simp
next
  case False
  with assms have "qxp_recur (wcxp self) [] u False = Some cxp"
    by (auto simp: compute_cxp_def cxp_qxp_def split: if_splits bind_splits)
  then show ?thesis by (rule qxp_recur_subseq)
qed

lemma compute_axp_subseq:
  assumes "compute_axp self alg u = Some (Inr (axp, ls))"
  shows "subseq axp u"
proof (cases "alg = ''del''")
  case True
  with assms obtain n where "del_loop (counted (waxp self)) u u 0 = Inr (axp, n)"
    by (auto simp: compute_axp_def axp_del_def split: sum.splits)
  from del_loop_sound[OF this] show ?thesis by simp
next
  case False
  with assms have "qxp_recur (waxp self) [] u False = Some axp"
    by (auto simp: compute_axp_def axp_qxp_def split: if_splits bind_splits)
  then show ?thesis by (rule qxp_recur_subseq)
qed

lemma compute_cxp_weak:
  assumes mono: "monotone_oracle (wcxp self)" and w: "wcxp self u"
    and c: "compute_cxp self alg u = Some (Inr (cxp, ls))"
  shows "wcxp self cxp"
proof (cases "alg = ''del''")
  case True
  with c obtain n where "del_loop (counted (wcxp self)) u u 0 = Inr (cxp, n)"
    by (auto simp: compute_cxp_def cxp_del_def split: sum.splits)
  from del_loop_sound[OF this] w show ?thesis by simp
next
  case False
  with c have q: "qxp_recur (wcxp self) [] u False = Some cxp"
    by (auto simp: compute_cxp_def cxp_qxp_def split: if_splits bind_splits)
  from qxp_recur_empty[OF q] have "u \<noteq> []" by simp
  from qxp_recur_correct[OF mono this, of "[]" False] w q show ?thesis by auto
qed

lemma compute_axp_weak:
  assumes mono: "monotone_oracle (waxp self)" and w: "waxp self u"
    and c: "compute_axp self alg u = Some (Inr (axp, ls))"
  shows "waxp self axp"
proof (cases "alg = ''del''")
  case True
  with c obtain n where "del_loop (counted (waxp self)) u u 0 = Inr (axp, n)"
    by (auto simp: compute_axp_def axp_del_def split: sum.splits)
  from del_loop_sound[OF this] w show ?thesis by simp
next
  case False
  with c have q: "qxp_recur (waxp self) [] u False = Some axp"
    by (auto simp: compute_axp_def axp_qxp_def split: if_splits bind_splits)
  from qxp_recur_empty[OF q] have "u \<noteq> []" by simp
  from qxp_recur_correct[OF mono this, of "[]" False] w q show ?thesis by auto
qed

subsection \<open>Blocking clauses\<close>

lemma initial_pool:
  "distinct (snd (new_vars [] feats)) \<and> set (snd (new_vars [] feats)) = set feats"
  using new_vars_pool[of "[]" feats] by simp

lemma obj2id_the:
  assumes "i \<in> set pool"
  shows "obj2id pool i = Some (the (obj2id pool i))"
  using assms obj2id_None_iff[of pool i] by (cases "obj2id pool i") auto

lemma cxp_clause_blocks:
  assumes m: "is_model cs m" and d: "distinct pool" and c: "set c \<subseteq> set pool"
    and cl: "map (\<lambda>i. - the (obj2id pool i)) c \<in> set cs"
    and u: "read_model pool m = Inr u"
  shows "\<not> set c \<subseteq> set u"
proof
  assume sub: "set c \<subseteq> set u"
  from m cl have "\<exists>l \<in> set (map (\<lambda>i. - the (obj2id pool i)) c). l \<in> set m"
    unfolding is_model_def satisfies_def by blast
  then obtain i where i: "i \<in> set c" "- the (obj2id pool i) \<in> set m" by auto
  from i(1) sub have "i \<in> set u" by blast
  with read_model_set[OF u] obtain l where l: "l \<in> set m" "0 < l" "vpool_obj pool l = Some i"
    by auto
  from vpool_obj_obj2id[OF d l(3)] have "the (obj2id pool i) = l" by simp
  with i(2) have "- l \<in> set m" by simp
  from is_model_consistent[OF m l(1) this] show False .
qed

lemma axp_clause_blocks:
  assumes m: "is_model cs m" and a: "set a \<subseteq> set pool"
    and cl: "map (\<lambda>i. the (obj2id pool i)) a \<in> set cs"
    and u: "read_model pool m = Inr u"
  shows "set a \<inter> set u \<noteq> {}"
proof -
  from m cl have "\<exists>l \<in> set (map (\<lambda>i. the (obj2id pool i)) a). l \<in> set m"
    unfolding is_model_def satisfies_def by blast
  then obtain i where i: "i \<in> set a" "the (obj2id pool i) \<in> set m" by auto
  from i(1) a have "i \<in> set pool" by blast
  note v = obj2id_the[OF this]
  from obj2id_SomeD[OF v] have "0 < the (obj2id pool i)" by simp
  moreover from obj2id_vpool_obj[OF v] have "vpool_obj pool (the (obj2id pool i)) = Some i" .
  ultimately have "i \<in> set u" using read_model_set[OF u] i(2) by auto
  with i(1) show ?thesis by blast
qed

lemma read_model_in_pool:
  assumes "read_model pool m = Inr u"
  shows "set u \<subseteq> set pool"
  using read_model_set[OF assms] by (auto dest: vpool_obj_in_pool)

lemma enum_inv_cxp_step:
  assumes inv: "enum_inv feats st" and m: "is_model (clauses st) m"
    and u: "read_model (vpool st) m = Inr univ'"
    and c: "compute_cxp self alg univ' = Some (Inr (cxp, ls))"
    and nv: "new_vars (vpool st) cxp = (vs, pool)"
  shows "enum_inv feats (st\<lparr>vpool := pool, clauses := clauses st @ [map uminus vs],
           cxps := cxps st @ [cxp], iterations := Suc (iterations st),
           printed := printed st @ ls\<rparr>)"
proof -
  from inv have p0: "vpool st = snd (new_vars [] feats)" by (simp add: enum_inv_def)
  with initial_pool[of feats] have d: "distinct (vpool st)" and sp: "set (vpool st) = set feats"
    by simp_all
  from compute_cxp_subseq[OF c] have "set cxp \<subseteq> set univ'" by (rule subseq_set)
  with read_model_in_pool[OF u] have cp: "set cxp \<subseteq> set (vpool st)" by blast
  from new_vars_known[OF cp] nv have vs: "vs = map (\<lambda>i. the (obj2id (vpool st) i)) cxp"
    and pool: "pool = vpool st" by simp_all
  have new_clause: "map uminus vs = map (\<lambda>i. - the (obj2id (vpool st) i)) cxp"
    by (simp add: vs)
  have fresh: "set cxp \<notin> set ` set (cxps st)"
  proof
    assume "set cxp \<in> set ` set (cxps st)"
    then obtain c' where c': "c' \<in> set (cxps st)" "set c' = set cxp" by auto
    from inv c'(1) have "set c' \<subseteq> set feats"
      and cl: "map (\<lambda>i. - the (obj2id (vpool st) i)) c' \<in> set (clauses st)"
      unfolding enum_inv_def by blast+
    then have "set c' \<subseteq> set (vpool st)" using sp by simp
    from cxp_clause_blocks[OF m d this cl u] c'(2) \<open>set cxp \<subseteq> set univ'\<close>
    show False by simp
  qed
  have bounds: "\<forall>l \<in> set (map uminus vs). 1 \<le> \<bar>l\<bar> \<and> \<bar>l\<bar> \<le> int (length (vpool st))"
  proof
    fix l assume "l \<in> set (map uminus vs)"
    then obtain i where i: "i \<in> set cxp" "l = - the (obj2id (vpool st) i)"
      unfolding new_clause by auto
    with cp have "i \<in> set (vpool st)" by blast
    from obj2id_SomeD[OF obj2id_the[OF this]] i(2)
    show "1 \<le> \<bar>l\<bar> \<and> \<bar>l\<bar> \<le> int (length (vpool st))" by simp
  qed
  from inv p0 fresh cp sp bounds show ?thesis
    unfolding enum_inv_def pool new_clause[symmetric] by (simp add: new_clause)
qed

lemma enum_inv_axp_step:
  assumes inv: "enum_inv feats st" and m: "is_model (clauses st) m"
    and u: "read_model (vpool st) m = Inr univ'"
    and c: "compute_axp self alg (filter (\<lambda>i. i \<notin> set univ') feats) = Some (Inr (axp, ls))"
    and nv: "new_vars (vpool st) axp = (vs, pool)"
  shows "enum_inv feats (st\<lparr>vpool := pool, clauses := clauses st @ [vs],
           axps := axps st @ [axp], iterations := Suc (iterations st),
           printed := printed st @ ls\<rparr>)"
proof -
  from inv have p0: "vpool st = snd (new_vars [] feats)" by (simp add: enum_inv_def)
  with initial_pool[of feats] have d: "distinct (vpool st)" and sp: "set (vpool st) = set feats"
    by simp_all
  from compute_axp_subseq[OF c] have sub: "set axp \<subseteq> set (filter (\<lambda>i. i \<notin> set univ') feats)"
    by (rule subseq_set)
  then have ap: "set axp \<subseteq> set (vpool st)" and disj: "set axp \<inter> set univ' = {}"
    using sp by auto
  from new_vars_known[OF ap] nv have vs: "vs = map (\<lambda>i. the (obj2id (vpool st) i)) axp"
    and pool: "pool = vpool st" by simp_all
  have fresh: "set axp \<notin> set ` set (axps st)"
  proof
    assume "set axp \<in> set ` set (axps st)"
    then obtain a' where a': "a' \<in> set (axps st)" "set a' = set axp" by auto
    from inv a'(1) have "set a' \<subseteq> set feats"
      and cl: "map (\<lambda>i. the (obj2id (vpool st) i)) a' \<in> set (clauses st)"
      unfolding enum_inv_def by blast+
    then have "set a' \<subseteq> set (vpool st)" using sp by simp
    from axp_clause_blocks[OF m this cl u] a'(2) disj show False by simp
  qed
  have bounds: "\<forall>l \<in> set vs. 1 \<le> \<bar>l\<bar> \<and> \<bar>l\<bar> \<le> int (length (vpool st))"
  proof
    fix l assume "l \<in> set vs"
    then obtain i where i: "i \<in> set axp" "l = the (obj2id (vpool st) i)"
      unfolding vs by auto
    with ap have "i \<in> set (vpool st)" by blast
    from obj2id_SomeD[OF obj2id_the[OF this]] i(2)
    show "1 \<le> \<bar>l\<bar> \<and> \<bar>l\<bar> \<le> int (length (vpool st))" by simp
  qed
  from inv p0 fresh ap sp bounds vs show ?thesis
    unfolding enum_inv_def pool by simp
qed

lemma enum_inv_initial:
  "enum_inv feats \<lparr>vpool = snd (new_vars [] feats), clauses = [], axps = [], cxps = [],
     iterations = 0, printed = []\<rparr>"
  by (simp add: enum_inv_def)

lemma enum_loop_enum_inv:
  assumes sound: "sound_solver solve"
    and run: "enum_loop self solve feats alg st = Some (Inr st')"
    and inv: "enum_inv feats st"
  shows "enum_inv feats st'"
proof -
  have "enum_inv feats st' \<and> solve (clauses st') = None"
  proof (rule enum_loop_invariant[OF run, where I = "enum_inv feats"], goal_cases)
    case 1
    show ?case by (rule inv)
  next
    case (2 st m univ' cxp ls vs pool)
    from sound 2(2) have "is_model (clauses st) m" by (simp add: sound_solver_def)
    from enum_inv_cxp_step[OF 2(1) this 2(3) 2(5) 2(6)] show ?case .
  next
    case (3 st m univ' axp ls vs pool)
    from sound 3(2) have "is_model (clauses st) m" by (simp add: sound_solver_def)
    from enum_inv_axp_step[OF 3(1) this 3(3) 3(5) 3(6)] show ?case .
  qed
  then show ?thesis by simp
qed

subsection \<open>The oracles of the scenario\<close>

lemma scenario_waxp_monotone: "monotone_oracle scenario_waxp"
  unfolding monotone_oracle_def scenario_waxp_def by blast

lemma scenario_wcxp_monotone: "monotone_oracle scenario_wcxp"
proof -
  have "scenario_wcxp T'" if "set T \<subseteq> set T'" "scenario_wcxp T" for T T'
  proof -
    from that(1) have "set (filter (\<lambda>i. i \<notin> set T') [1, 2, 3]) \<subseteq> set (filter (\<lambda>i. i \<notin> set T) [1, 2, 3])"
      by auto
    with scenario_waxp_monotone that(2) show ?thesis
      unfolding scenario_wcxp_def monotone_oracle_def by blast
  qed
  then show ?thesis unfolding monotone_oracle_def by blast
qed

lemma scenario_dual: "dual_oracles (scenario v) [1, 2, 3]"
  by (simp add: dual_oracles_def scenario_def scenario_wcxp_def)

lemma scenario_enum_del:
  "enum (scenario 0) first_model [1, 2, 3] ''del''
     = Some (Inr (([[2, 3], [1]], [[1, 3], [1, 2]]), 4, []))"
  by code_simp

subsection \<open>The claims on the enumeration\<close>

text \<open>
  C7: with a sound solver, the two lists that \<open>enum\<close> returns hold no two explanations
  that are equal as sets. Every blocking clause keeps the features of its explanation
  from being all universal (CXp) or all fixed (AXp) in a later model, and a minimiser
  returns a sublist of what it is given. The oracles need not be monotone for this.
\<close>

theorem enum_no_duplicates:
  assumes "sound_solver solve"
    and "enum self solve feats_idx alg = Some (Inr ((A, C), n, ls))"
  shows "distinct (map set A) \<and> distinct (map set C)"
proof -
  let ?init = "\<lparr>vpool = snd (new_vars [] feats_idx), clauses = [], axps = [], cxps = [],
     iterations = 0, printed = []\<rparr>"
  from assms(2) obtain st' where run: "enum_loop self solve feats_idx alg ?init = Some (Inr st')"
    and res: "A = axps st'" "C = cxps st'"
    by (auto simp: enum_def split: option.splits sum.splits)
  from enum_loop_enum_inv[OF assms(1) run enum_inv_initial] res show ?thesis
    by (simp add: enum_inv_def)
qed

theorem enum_no_duplicates_witness:
  "sound_solver first_model
   \<and> enum (scenario 0) first_model [1, 2, 3] ''del''
       = Some (Inr (([[2, 3], [1]], [[1, 3], [1, 2]]), 4, []))
   \<and> distinct (map set [[2, 3], [1 :: int]]) \<and> distinct (map set [[1, 3], [1, 2 :: int]])"
  using enum_no_duplicates[OF first_model_sound scenario_enum_del] first_model_sound
    scenario_enum_del
  by blast

lemma enum_loop_weak:
  assumes ma: "monotone_oracle (waxp self)" and mc: "monotone_oracle (wcxp self)"
    and dual: "dual_oracles self feats"
    and run: "enum_loop self solve feats alg st = Some (Inr st')"
    and init: "(\<forall>a \<in> set (axps st). waxp self a \<and> set a \<subseteq> set feats)
               \<and> (\<forall>c \<in> set (cxps st). wcxp self c)"
  shows "(\<forall>a \<in> set (axps st'). waxp self a \<and> set a \<subseteq> set feats)
         \<and> (\<forall>c \<in> set (cxps st'). wcxp self c)"
proof -
  let ?I = "\<lambda>st. (\<forall>a \<in> set (axps st). waxp self a \<and> set a \<subseteq> set feats)
               \<and> (\<forall>c \<in> set (cxps st). wcxp self c)"
  have "?I st' \<and> solve (clauses st') = None"
  proof (rule enum_loop_invariant[OF run, where I = ?I], goal_cases)
    case 1
    show ?case by (rule init)
  next
    case (2 st m univ' cxp ls vs pool)
    from compute_cxp_weak[OF mc 2(4) 2(5)] 2(1) show ?case by simp
  next
    case (3 st m univ' axp ls vs pool)
    let ?fix = "filter (\<lambda>i. i \<notin> set univ') feats"
    from dual 3(4) have "waxp self ?fix" by (simp add: dual_oracles_def)
    from compute_axp_weak[OF ma this 3(5)] have "waxp self axp" .
    moreover from compute_axp_subseq[OF 3(5)] have "set axp \<subseteq> set ?fix" by (rule subseq_set)
    then have "set axp \<subseteq> set feats" by auto
    ultimately show ?case using 3(1) by simp
  qed
  then show ?thesis by simp
qed

text \<open>
  C2, as the code has it: if both oracles are monotone and dual to each other on
  \<^verbatim>\<open>feats_idx\<close> (a list of universal features is a weak CXp exactly if the features
  left fixed are no weak AXp), then every AXp and every CXp that \<open>enum\<close> returns share
  a feature.
\<close>

theorem enum_duality:
  assumes "monotone_oracle (waxp self)" and "monotone_oracle (wcxp self)"
    and "dual_oracles self feats_idx"
    and "enum self solve feats_idx alg = Some (Inr ((A, C), n, ls))"
    and "a \<in> set A" and "c \<in> set C"
  shows "set a \<inter> set c \<noteq> {}"
proof
  assume disj: "set a \<inter> set c = {}"
  let ?init = "\<lparr>vpool = snd (new_vars [] feats_idx), clauses = [], axps = [], cxps = [],
     iterations = 0, printed = []\<rparr>"
  from assms(4) obtain st' where run: "enum_loop self solve feats_idx alg ?init = Some (Inr st')"
    and res: "A = axps st'" "C = cxps st'"
    by (auto simp: enum_def split: option.splits sum.splits)
  from enum_loop_weak[OF assms(1-3) run] res assms(5,6)
  have a: "waxp self a" "set a \<subseteq> set feats_idx" and c: "wcxp self c" by auto
  from a(2) disj have "set a \<subseteq> set (filter (\<lambda>i. i \<notin> set c) feats_idx)" by auto
  with assms(1) a(1) have "waxp self (filter (\<lambda>i. i \<notin> set c) feats_idx)"
    unfolding monotone_oracle_def by blast
  with assms(3) c show False by (simp add: dual_oracles_def)
qed

theorem enum_duality_witness:
  "monotone_oracle (waxp (scenario 0)) \<and> monotone_oracle (wcxp (scenario 0))
   \<and> dual_oracles (scenario 0) [1, 2, 3]
   \<and> enum (scenario 0) first_model [1, 2, 3] ''del''
       = Some (Inr (([[2, 3], [1]], [[1, 3], [1, 2]]), 4, []))
   \<and> set [2, 3] \<inter> set [1, 3 :: int] \<noteq> {}"
proof -
  have ma: "monotone_oracle (waxp (scenario 0))"
    by (simp add: scenario_def scenario_waxp_monotone)
  have mc: "monotone_oracle (wcxp (scenario 0))"
    by (simp add: scenario_def scenario_wcxp_monotone)
  have a: "[2, 3] \<in> set [[2, 3], [1 :: int]]" and c: "[1, 3] \<in> set [[1, 3], [1, 2 :: int]]"
    by simp_all
  from enum_duality[OF ma mc scenario_dual scenario_enum_del a c] ma mc scenario_dual
    scenario_enum_del
  show ?thesis by blast
qed

text \<open>
  C2 with monotone oracles only fails: with \<open>waxp(S) = (1 \<in> S)\<close> and
  \<open>wcxp(U) = (2 \<in> U)\<close> on the features \<open>[1, 2]\<close>, every model of the three iterations is
  the only one of its clauses, and \<open>enum\<close> returns the AXp \<open>[1]\<close> and the CXp \<open>[2]\<close>.
\<close>

theorem enum_duality_counterexample:
  "monotone_oracle (waxp (unrelated_oracles 0)) \<and> monotone_oracle (wcxp (unrelated_oracles 0))
   \<and> enum (unrelated_oracles 0) first_model [1, 2] ''del''
       = Some (Inr (([[1], [2]], [[2]]), 3, []))
   \<and> set [1] \<inter> set [2 :: int] = {}"
proof -
  have "monotone_oracle (waxp (unrelated_oracles 0))" "monotone_oracle (wcxp (unrelated_oracles 0))"
    unfolding monotone_oracle_def unrelated_oracles_def by auto
  moreover have "enum (unrelated_oracles 0) first_model [1, 2] ''del''
       = Some (Inr (([[1], [2]], [[2]]), 3, []))"
    by code_simp
  ultimately show ?thesis by simp
qed

subsection \<open>The verbosity level\<close>

text \<open>
  Two objects with the same oracles, started in loop states that differ in the printed
  lines only, run the loop in lockstep: if one run returns, so does the other, with
  the same error or with a final state that again differs in the printed lines only.
\<close>

lemma compute_cxp_verbose:
  assumes "wcxp self2 = wcxp self1"
  shows "map_option returned (compute_cxp self2 alg u) = map_option returned (compute_cxp self1 alg u)"
  using assms
  by (cases "del_loop (counted (wcxp self1)) u u 0"; cases "qxp_recur (wcxp self1) [] u False")
     (auto simp: compute_cxp_def cxp_del_def cxp_qxp_def returned_def)

lemma compute_axp_verbose:
  assumes "waxp self2 = waxp self1"
  shows "map_option returned (compute_axp self2 alg u) = map_option returned (compute_axp self1 alg u)"
  using assms
  by (cases "del_loop (counted (waxp self1)) u u 0"; cases "qxp_recur (waxp self1) [] u False")
     (auto simp: compute_axp_def axp_del_def axp_qxp_def returned_def)

lemma returned_cases:
  "map_option returned x = map_option returned y \<Longrightarrow>
     (x = None \<and> y = None)
     \<or> (\<exists>e. x = Some (Inl e) \<and> y = Some (Inl e))
     \<or> (\<exists>a b b'. x = Some (Inr (a, b)) \<and> y = Some (Inr (a, b')))"
  by (cases x; cases y) (auto simp: returned_def split: sum.splits)

lemma enum_loop_verbose:
  assumes run: "enum_loop self1 solve feats alg st1 = Some r1"
    and oracles: "waxp self2 = waxp self1" "wcxp self2 = wcxp self1"
    and st: "unprinted st2 = unprinted st1"
  shows "\<exists>r2. enum_loop self2 solve feats alg st2 = Some r2
              \<and> map_sum id unprinted r2 = map_sum id unprinted r1"
proof -
  note r = enum_loop.raw_induct[where P = "\<lambda>self1 solve feats alg st1 r1.
        \<forall>st2. waxp self2 = waxp self1 \<and> wcxp self2 = wcxp self1 \<and> unprinted st2 = unprinted st1
          \<longrightarrow> (\<exists>r2. enum_loop self2 solve feats alg st2 = Some r2
                    \<and> map_sum id unprinted r2 = map_sum id unprinted r1)", OF _ run]
  have "\<forall>st2. waxp self2 = waxp self1 \<and> wcxp self2 = wcxp self1 \<and> unprinted st2 = unprinted st1
          \<longrightarrow> (\<exists>r2. enum_loop self2 solve feats alg st2 = Some r2
                    \<and> map_sum id unprinted r2 = map_sum id unprinted r1)"
  proof (rule r, goal_cases)
    case (1 f self1 solve feats alg st1 r1)
    show ?case
    proof (intro allI impI, elim conjE)
      fix st2
      assume wa: "waxp self2 = waxp self1" and wc: "wcxp self2 = wcxp self1"
        and eq: "unprinted st2 = unprinted st1"
      from eq have fields: "vpool st2 = vpool st1" "clauses st2 = clauses st1"
        "axps st2 = axps st1" "cxps st2 = cxps st1" "iterations st2 = iterations st1"
        by (simp_all add: unprinted_def)
      note body = 1(2)
      note IH = 1(1)
      show "\<exists>r2. enum_loop self2 solve feats alg st2 = Some r2
              \<and> map_sum id unprinted r2 = map_sum id unprinted r1"
      proof (cases "solve (clauses st1)")
        case None
        with body have "r1 = Inr st1" by simp
        moreover from None fields have "enum_loop self2 solve feats alg st2 = Some (Inr st2)"
          by (subst enum_loop.simps) simp
        ultimately show ?thesis using eq by simp
      next
        case (Some m)
        show ?thesis
        proof (cases "read_model (vpool st1) m")
          case (Inl e)
          with Some body have "r1 = Inl e" by simp
          moreover from Some Inl fields have "enum_loop self2 solve feats alg st2 = Some (Inl e)"
            by (subst enum_loop.simps) simp
          ultimately show ?thesis by simp
        next
          case (Inr univ')
          show ?thesis
          proof (cases "wcxp self1 univ'")
            case True
            from returned_cases[OF compute_cxp_verbose[OF wc, of alg univ']]
            consider (none) "compute_cxp self1 alg univ' = None"
              | (err) e where "compute_cxp self1 alg univ' = Some (Inl e)"
                  "compute_cxp self2 alg univ' = Some (Inl e)"
              | (ok) cxp ls1 ls2 where "compute_cxp self1 alg univ' = Some (Inr (cxp, ls1))"
                  "compute_cxp self2 alg univ' = Some (Inr (cxp, ls2))"
              by (elim disjE exE conjE) auto
            then show ?thesis
            proof cases
              case none
              with Some Inr True body show ?thesis by (simp add: Let_def)
            next
              case err
              with Some Inr True body have "r1 = Inl e" by (simp add: Let_def)
              moreover from Some Inr True err fields wc
              have "enum_loop self2 solve feats alg st2 = Some (Inl e)"
                by (subst enum_loop.simps) (simp add: Let_def)
              ultimately show ?thesis by simp
            next
              case ok
              obtain vs pool where nv: "new_vars (vpool st1) cxp = (vs, pool)"
                by (cases "new_vars (vpool st1) cxp")
              let ?st1 = "st1\<lparr>vpool := pool, clauses := clauses st1 @ [map uminus vs],
                cxps := cxps st1 @ [cxp], iterations := Suc (iterations st1),
                printed := printed st1 @ ls1\<rparr>"
              let ?st2 = "st2\<lparr>vpool := pool, clauses := clauses st2 @ [map uminus vs],
                cxps := cxps st2 @ [cxp], iterations := Suc (iterations st2),
                printed := printed st2 @ ls2\<rparr>"
              from Some Inr True ok(1) nv body have "f self1 solve feats alg ?st1 = Some r1"
                by (simp add: Let_def)
              moreover have "unprinted ?st2 = unprinted ?st1"
                using fields by (simp add: unprinted_def)
              ultimately obtain r2 where r2: "enum_loop self2 solve feats alg ?st2 = Some r2"
                "map_sum id unprinted r2 = map_sum id unprinted r1"
                using IH wa wc by blast
              from Some Inr True ok(2) nv fields wc
              have "enum_loop self2 solve feats alg st2 = enum_loop self2 solve feats alg ?st2"
                by (subst enum_loop.simps) (simp add: Let_def)
              with r2 show ?thesis by simp
            qed
          next
            case False
            let ?fix = "filter (\<lambda>i. i \<notin> set univ') feats"
            from returned_cases[OF compute_axp_verbose[OF wa, of alg ?fix]]
            consider (none) "compute_axp self1 alg ?fix = None"
              | (err) e where "compute_axp self1 alg ?fix = Some (Inl e)"
                  "compute_axp self2 alg ?fix = Some (Inl e)"
              | (ok) axp ls1 ls2 where "compute_axp self1 alg ?fix = Some (Inr (axp, ls1))"
                  "compute_axp self2 alg ?fix = Some (Inr (axp, ls2))"
              by (elim disjE exE conjE) auto
            then show ?thesis
            proof cases
              case none
              with Some Inr False body show ?thesis by (simp add: Let_def)
            next
              case err
              with Some Inr False body have "r1 = Inl e" by (simp add: Let_def)
              moreover from Some Inr False err fields wc
              have "enum_loop self2 solve feats alg st2 = Some (Inl e)"
                by (subst enum_loop.simps) (simp add: Let_def)
              ultimately show ?thesis by simp
            next
              case ok
              obtain vs pool where nv: "new_vars (vpool st1) axp = (vs, pool)"
                by (cases "new_vars (vpool st1) axp")
              let ?st1 = "st1\<lparr>vpool := pool, clauses := clauses st1 @ [vs],
                axps := axps st1 @ [axp], iterations := Suc (iterations st1),
                printed := printed st1 @ ls1\<rparr>"
              let ?st2 = "st2\<lparr>vpool := pool, clauses := clauses st2 @ [vs],
                axps := axps st2 @ [axp], iterations := Suc (iterations st2),
                printed := printed st2 @ ls2\<rparr>"
              from Some Inr False ok(1) nv body have "f self1 solve feats alg ?st1 = Some r1"
                by (simp add: Let_def)
              moreover have "unprinted ?st2 = unprinted ?st1"
                using fields by (simp add: unprinted_def)
              ultimately obtain r2 where r2: "enum_loop self2 solve feats alg ?st2 = Some r2"
                "map_sum id unprinted r2 = map_sum id unprinted r1"
                using IH wa wc by blast
              from Some Inr False ok(2) nv fields wc
              have "enum_loop self2 solve feats alg st2 = enum_loop self2 solve feats alg ?st2"
                by (subst enum_loop.simps) (simp add: Let_def)
              with r2 show ?thesis by simp
            qed
          qed
        qed
      qed
    qed
  qed
  with oracles st show ?thesis by blast
qed

lemma enum_verbose:
  assumes oracles: "waxp self2 = waxp self1" "wcxp self2 = wcxp self1"
  shows "map_option returned (enum self2 solve feats alg)
         = map_option returned (enum self1 solve feats alg)"
proof -
  let ?init = "\<lparr>vpool = snd (new_vars [] feats), clauses = [], axps = [], cxps = [],
     iterations = 0, printed = []\<rparr>"
  show ?thesis
  proof (cases "enum_loop self1 solve feats alg ?init")
    case None
    have "enum_loop self2 solve feats alg ?init = None"
    proof (cases "enum_loop self2 solve feats alg ?init")
      case (Some r2)
      from enum_loop_verbose[OF Some oracles[symmetric] refl] None show ?thesis by simp
    qed simp
    with None show ?thesis by (simp add: enum_def)
  next
    case (Some r1)
    from enum_loop_verbose[OF Some oracles refl]
    obtain r2 where r2: "enum_loop self2 solve feats alg ?init = Some r2"
      "map_sum id unprinted r2 = map_sum id unprinted r1" by blast
    show ?thesis
    proof (cases r1)
      case (Inl e)
      with r2(2) have "r2 = Inl e" by (cases r2) auto
      with Inl Some r2(1) show ?thesis by (simp add: enum_def)
    next
      case (Inr s1)
      with r2(2) obtain s2 where s2: "r2 = Inr s2" "unprinted s2 = unprinted s1"
        by (cases r2) auto
      from s2(2) have "axps s2 = axps s1" "cxps s2 = cxps s1" by (simp_all add: unprinted_def)
      with Inr Some r2(1) s2(1) show ?thesis by (simp add: enum_def returned_def)
    qed
  qed
qed

text \<open>
  C9: the value that each of \<open>axp_del\<close>, \<open>cxp_del\<close>, \<open>axp_qxp\<close>, \<open>cxp_qxp\<close>, \<open>enum\<close>,
  \<open>check_axp\<close> and \<open>check_cxp\<close> returns (an explanation, the two lists, a verdict, a
  raised error, or no return at all) is the same for any two verbosity levels; the
  level changes the printed lines only.
\<close>

theorem verbose_noninterference:
  "returned (axp_del (self\<lparr>verbose := v\<rparr>) S) = returned (axp_del (self\<lparr>verbose := v'\<rparr>) S)
   \<and> returned (cxp_del (self\<lparr>verbose := v\<rparr>) S) = returned (cxp_del (self\<lparr>verbose := v'\<rparr>) S)
   \<and> map_option fst (axp_qxp (self\<lparr>verbose := v\<rparr>) S)
       = map_option fst (axp_qxp (self\<lparr>verbose := v'\<rparr>) S)
   \<and> map_option fst (cxp_qxp (self\<lparr>verbose := v\<rparr>) S)
       = map_option fst (cxp_qxp (self\<lparr>verbose := v'\<rparr>) S)
   \<and> map_option returned (enum (self\<lparr>verbose := v\<rparr>) solve feats_idx alg)
       = map_option returned (enum (self\<lparr>verbose := v'\<rparr>) solve feats_idx alg)
   \<and> returned (check_axp (self\<lparr>verbose := v\<rparr>) S)
       = returned (check_axp (self\<lparr>verbose := v'\<rparr>) S)
   \<and> returned (check_cxp (self\<lparr>verbose := v\<rparr>) S)
       = returned (check_cxp (self\<lparr>verbose := v'\<rparr>) S)"
proof -
  have del: "returned (axp_del (self\<lparr>verbose := v\<rparr>) S) = returned (axp_del (self\<lparr>verbose := v'\<rparr>) S)"
    "returned (cxp_del (self\<lparr>verbose := v\<rparr>) S) = returned (cxp_del (self\<lparr>verbose := v'\<rparr>) S)"
    by (simp_all add: axp_del_def cxp_del_def returned_def split: sum.splits)
  have qxp: "map_option fst (axp_qxp (self\<lparr>verbose := v\<rparr>) S)
       = map_option fst (axp_qxp (self\<lparr>verbose := v'\<rparr>) S)"
    "map_option fst (cxp_qxp (self\<lparr>verbose := v\<rparr>) S)
       = map_option fst (cxp_qxp (self\<lparr>verbose := v'\<rparr>) S)"
    by (simp_all add: axp_qxp_def cxp_qxp_def split: bind_splits)
  have en: "map_option returned (enum (self\<lparr>verbose := v\<rparr>) solve feats_idx alg)
       = map_option returned (enum (self\<lparr>verbose := v'\<rparr>) solve feats_idx alg)"
    by (rule enum_verbose) simp_all
  have chk: "returned (check_axp (self\<lparr>verbose := v\<rparr>) S)
       = returned (check_axp (self\<lparr>verbose := v'\<rparr>) S)"
    "returned (check_cxp (self\<lparr>verbose := v\<rparr>) S)
       = returned (check_cxp (self\<lparr>verbose := v'\<rparr>) S)"
    by (simp_all add: check_axp_def check_cxp_def)
  from del qxp en chk show ?thesis by blast
qed

subsection \<open>Termination of the enumeration\<close>

text \<open>
  Every iteration removes the total assignment that extends its model by false from
  those that satisfy all clauses: a CXp is made of universal features, so its clause
  is false there, and an AXp is made of fixed features. With the deletion minimisers,
  which always return, the loop therefore ends, after at most \<open>2 ^ |feats_idx|\<close>
  iterations; with either minimiser a run that returns has made that many at most,
  one for each explanation.
\<close>

lemma finite_total_models: "finite (total_models k cs)"
proof -
  have "total_models k cs \<subseteq> Pow {1..int k}" by (auto simp: total_models_def)
  then show ?thesis by (rule finite_subset) simp
qed

lemma card_total_models_Nil: "card (total_models k []) = 2 ^ k"
proof -
  have "total_models k [] = Pow {1..int k}" by (auto simp: total_models_def)
  then show ?thesis by (simp add: card_Pow)
qed

lemma total_models_append: "total_models k (cs @ [c]) \<subseteq> total_models k cs"
  by (auto simp: total_models_def)

lemma card_total_models_less:
  assumes "\<sigma> \<in> total_models k cs" "\<sigma> \<notin> total_models k (cs @ [c])"
  shows "card (total_models k (cs @ [c])) < card (total_models k cs)"
proof -
  from assms total_models_append[of k cs c] have "total_models k (cs @ [c]) \<subset> total_models k cs"
    by blast
  then show ?thesis by (rule psubset_card_mono[OF finite_total_models])
qed

lemma fold_max_le:
  "n \<le> k \<Longrightarrow> \<forall>l \<in> set c. \<bar>l\<bar> \<le> int k \<Longrightarrow> fold (\<lambda>l m. max m (nat \<bar>l\<bar>)) c n \<le> k"
  by (induction c arbitrary: n) auto

lemma nof_vars_le:
  assumes "\<forall>c \<in> set cs. \<forall>l \<in> set c. \<bar>l\<bar> \<le> int k"
  shows "nof_vars cs \<le> k"
proof -
  have "n \<le> k \<Longrightarrow> fold (\<lambda>c n. fold (\<lambda>l m. max m (nat \<bar>l\<bar>)) c n) cs n \<le> k" for n
    using assms
  proof (induction cs arbitrary: n)
    case Nil
    then show ?case by simp
  next
    case (Cons c cs)
    from Cons.prems have "fold (\<lambda>l m. max m (nat \<bar>l\<bar>)) c n \<le> k"
      by (intro fold_max_le) auto
    from Cons.IH[OF this] Cons.prems(2) show ?case by simp
  qed
  then show ?thesis by (simp add: nof_vars_def)
qed

lemma is_model_lits:
  assumes "is_model cs m" "l \<in> set m"
  shows "1 \<le> \<bar>l\<bar> \<and> \<bar>l\<bar> \<le> int (nof_vars cs)"
proof -
  from assms(2) obtain j where j: "j < length m" "m ! j = l" by (auto simp: in_set_conv_nth)
  with assms(1) have "\<bar>l\<bar> = int j + 1" "length m = nof_vars cs" by (auto simp: is_model_def)
  with j(1) show ?thesis by simp
qed

lemma model_total:
  assumes m: "is_model cs m" and k: "nof_vars cs \<le> k"
  shows "{l \<in> set m. 0 < l} \<in> total_models k cs"
proof -
  have "{l \<in> set m. 0 < l} \<subseteq> {1..int k}"
    using is_model_lits[OF m] k by fastforce
  moreover have "\<exists>l \<in> set c. (0 < l \<and> l \<in> {l \<in> set m. 0 < l}) \<or> (l < 0 \<and> - l \<notin> {l \<in> set m. 0 < l})"
    if c: "c \<in> set cs" for c
  proof -
    from m c obtain l where l: "l \<in> set c" "l \<in> set m"
      unfolding is_model_def satisfies_def by blast
    from is_model_lits[OF m l(2)] have "l \<noteq> 0" by auto
    show ?thesis
    proof (cases "0 < l")
      case True
      with l show ?thesis by blast
    next
      case False
      with \<open>l \<noteq> 0\<close> have neg: "l < 0" by simp
      have "- l \<notin> set m"
      proof
        assume "- l \<in> set m"
        from is_model_consistent[OF m l(2) this] show False .
      qed
      with neg l(1) show ?thesis by blast
    qed
  qed
  ultimately show ?thesis by (simp add: total_models_def)
qed

lemma read_model_ok:
  assumes "\<forall>l \<in> set m. 1 \<le> \<bar>l\<bar> \<and> \<bar>l\<bar> \<le> int (length pool)"
  shows "\<exists>u. read_model pool m = Inr u"
  using assms
proof (induction m)
  case Nil
  then show ?case by simp
next
  case (Cons l m)
  then obtain u where "read_model pool m = Inr u" by auto
  moreover from Cons.prems have "vpool_obj pool \<bar>l\<bar> = Some (pool ! nat (\<bar>l\<bar> - 1))"
    by (simp add: vpool_obj_def)
  ultimately show ?case by simp
qed

lemma enum_inv_pool:
  assumes "enum_inv feats st"
  shows "distinct (vpool st)" "set (vpool st) = set feats"
    "vpool st = snd (new_vars [] feats)"
    "nof_vars (clauses st) \<le> length (vpool st)"
proof -
  from assms show p0: "vpool st = snd (new_vars [] feats)" by (simp add: enum_inv_def)
  with initial_pool[of feats] show "distinct (vpool st)" "set (vpool st) = set feats"
    by simp_all
  from assms have "\<forall>c \<in> set (clauses st). \<forall>l \<in> set c. \<bar>l\<bar> \<le> int (length (vpool st))"
    unfolding enum_inv_def by blast
  then show "nof_vars (clauses st) \<le> length (vpool st)" by (rule nof_vars_le)
qed

lemma cxp_clause_excludes:
  assumes d: "distinct pool" and u: "read_model pool m = Inr univ'"
    and sub: "set cxp \<subseteq> set univ'"
  shows "{l \<in> set m. 0 < l} \<notin> total_models k (cs @ [map (\<lambda>i. - the (obj2id pool i)) cxp])"
proof
  let ?s = "{l \<in> set m. 0 < l}"
  assume "?s \<in> total_models k (cs @ [map (\<lambda>i. - the (obj2id pool i)) cxp])"
  then have "\<exists>l \<in> set (map (\<lambda>i. - the (obj2id pool i)) cxp).
      (0 < l \<and> l \<in> ?s) \<or> (l < 0 \<and> - l \<notin> ?s)"
    unfolding total_models_def by simp
  then obtain i where i: "i \<in> set cxp"
    and l: "(0 < - the (obj2id pool i) \<and> - the (obj2id pool i) \<in> ?s)
            \<or> (- the (obj2id pool i) < 0 \<and> - (- the (obj2id pool i)) \<notin> ?s)"
    by auto
  from i sub have "i \<in> set univ'" by blast
  with read_model_set[OF u] obtain l' where l': "l' \<in> set m" "0 < l'" "vpool_obj pool l' = Some i"
    by auto
  from vpool_obj_obj2id[OF d l'(3)] have "the (obj2id pool i) = l'" by simp
  with l l'(1,2) show False by simp
qed

lemma axp_clause_excludes:
  assumes u: "read_model pool m = Inr univ'"
    and sub: "set axp \<subseteq> set pool" and disj: "set axp \<inter> set univ' = {}"
  shows "{l \<in> set m. 0 < l} \<notin> total_models k (cs @ [map (\<lambda>i. the (obj2id pool i)) axp])"
proof
  let ?s = "{l \<in> set m. 0 < l}"
  assume "?s \<in> total_models k (cs @ [map (\<lambda>i. the (obj2id pool i)) axp])"
  then have "\<exists>l \<in> set (map (\<lambda>i. the (obj2id pool i)) axp).
      (0 < l \<and> l \<in> ?s) \<or> (l < 0 \<and> - l \<notin> ?s)"
    unfolding total_models_def by simp
  then obtain i where i: "i \<in> set axp"
    and l: "(0 < the (obj2id pool i) \<and> the (obj2id pool i) \<in> ?s)
            \<or> (the (obj2id pool i) < 0 \<and> - the (obj2id pool i) \<notin> ?s)"
    by auto
  from i sub have "i \<in> set pool" by blast
  note v = obj2id_the[OF this]
  from obj2id_SomeD[OF v] have pos: "0 < the (obj2id pool i)" by simp
  with l have "the (obj2id pool i) \<in> set m" by auto
  moreover from obj2id_vpool_obj[OF v] have "vpool_obj pool (the (obj2id pool i)) = Some i" .
  ultimately have "i \<in> set univ'" using read_model_set[OF u] pos by auto
  with i disj show False by blast
qed

lemma cxp_step_decreases:
  assumes inv: "enum_inv feats st" and m: "is_model (clauses st) m"
    and u: "read_model (vpool st) m = Inr univ'"
    and c: "compute_cxp self alg univ' = Some (Inr (cxp, ls))"
    and nv: "new_vars (vpool st) cxp = (vs, pool)"
  shows "card (total_models (length (vpool st)) (clauses st @ [map uminus vs]))
         < card (total_models (length (vpool st)) (clauses st))"
proof -
  note p = enum_inv_pool[OF inv]
  from compute_cxp_subseq[OF c] have sub: "set cxp \<subseteq> set univ'" by (rule subseq_set)
  with read_model_in_pool[OF u] have "set cxp \<subseteq> set (vpool st)" by blast
  from new_vars_known[OF this] nv have "map uminus vs = map (\<lambda>i. - the (obj2id (vpool st) i)) cxp"
    by simp
  with cxp_clause_excludes[OF p(1) u sub, of "length (vpool st)" "clauses st"]
  have "{l \<in> set m. 0 < l} \<notin> total_models (length (vpool st)) (clauses st @ [map uminus vs])"
    by simp
  with model_total[OF m p(4)] show ?thesis by (rule card_total_models_less)
qed

lemma axp_step_decreases:
  assumes inv: "enum_inv feats st" and m: "is_model (clauses st) m"
    and u: "read_model (vpool st) m = Inr univ'"
    and c: "compute_axp self alg (filter (\<lambda>i. i \<notin> set univ') feats) = Some (Inr (axp, ls))"
    and nv: "new_vars (vpool st) axp = (vs, pool)"
  shows "card (total_models (length (vpool st)) (clauses st @ [vs]))
         < card (total_models (length (vpool st)) (clauses st))"
proof -
  note p = enum_inv_pool[OF inv]
  from compute_axp_subseq[OF c] have "set axp \<subseteq> set (filter (\<lambda>i. i \<notin> set univ') feats)"
    by (rule subseq_set)
  with p(2) have sub: "set axp \<subseteq> set (vpool st)" and disj: "set axp \<inter> set univ' = {}"
    by auto
  from new_vars_known[OF sub] nv have "vs = map (\<lambda>i. the (obj2id (vpool st) i)) axp"
    by simp
  with axp_clause_excludes[OF u sub disj, of "length (vpool st)" "clauses st"]
  have "{l \<in> set m. 0 < l} \<notin> total_models (length (vpool st)) (clauses st @ [vs])"
    by simp
  with model_total[OF m p(4)] show ?thesis by (rule card_total_models_less)
qed

lemma new_vars_pool_same:
  assumes "enum_inv feats st" "enum_inv feats st2"
  shows "vpool st2 = vpool st"
  using assms by (simp add: enum_inv_def)

lemma enum_loop_bound:
  assumes sound: "sound_solver solve"
    and run: "enum_loop self solve feats alg st = Some (Inr st')"
    and inv: "enum_inv feats st"
    and bound: "card (total_models (length (vpool st)) (clauses st)) + iterations st \<le> b"
  shows "iterations st' \<le> b"
proof -
  let ?k = "length (snd (new_vars [] feats))"
  let ?I = "\<lambda>st. enum_inv feats st \<and> card (total_models ?k (clauses st)) + iterations st \<le> b"
  have "?I st' \<and> solve (clauses st') = None"
  proof (rule enum_loop_invariant[OF run, where I = ?I], goal_cases)
    case 1
    from inv bound enum_inv_pool(3)[OF inv] show ?case by simp
  next
    case (2 st m univ' cxp ls vs pool)
    then have i: "enum_inv feats st" by simp
    from sound 2(2) have m: "is_model (clauses st) m" by (simp add: sound_solver_def)
    from cxp_step_decreases[OF i m 2(3) 2(5) 2(6)] enum_inv_pool(3)[OF i] 2(1)
      enum_inv_cxp_step[OF i m 2(3) 2(5) 2(6)]
    show ?case by simp
  next
    case (3 st m univ' axp ls vs pool)
    then have i: "enum_inv feats st" by simp
    from sound 3(2) have m: "is_model (clauses st) m" by (simp add: sound_solver_def)
    from axp_step_decreases[OF i m 3(3) 3(5) 3(6)] enum_inv_pool(3)[OF i] 3(1)
      enum_inv_axp_step[OF i m 3(3) 3(5) 3(6)]
    show ?case by simp
  qed
  then show ?thesis by simp
qed

lemma length_initial_pool: "length (snd (new_vars [] feats)) \<le> length feats"
proof -
  from initial_pool[of feats] have "length (snd (new_vars [] feats)) = card (set feats)"
    by (metis distinct_card)
  then show ?thesis by (simp add: card_length)
qed

lemma enum_iterations:
  assumes sound: "sound_solver solve"
    and run: "enum self solve feats alg = Some (Inr ((A, C), n, ls))"
  shows "n = length A + length C \<and> n \<le> 2 ^ length feats"
proof -
  let ?init = "\<lparr>vpool = snd (new_vars [] feats), clauses = [], axps = [], cxps = [],
     iterations = 0, printed = []\<rparr>"
  from run obtain st' where loop: "enum_loop self solve feats alg ?init = Some (Inr st')"
    and res: "A = axps st'" "C = cxps st'" "n = iterations st'"
    by (auto simp: enum_def split: option.splits sum.splits)
  from enum_loop_enum_inv[OF sound loop enum_inv_initial] res
  have "n = length A + length C" by (simp add: enum_inv_def)
  moreover have "iterations st' \<le> 2 ^ length (snd (new_vars [] feats))"
    by (rule enum_loop_bound[OF sound loop enum_inv_initial]) (simp add: card_total_models_Nil)
  then have "n \<le> 2 ^ length feats"
    using length_initial_pool[of feats] res(3)
    by (meson le_trans one_le_numeral power_increasing)
  ultimately show ?thesis by simp
qed

lemma compute_cxp_del: "\<exists>cxp ls. compute_cxp self ''del'' u = Some (Inr (cxp, ls))"
proof -
  obtain A where "del_loop (counted (wcxp self)) u u 0 = Inr (A, 0 + length u)"
    using del_loop_total[of u u "wcxp self" 0] by auto
  then show ?thesis by (simp add: compute_cxp_def cxp_del_def)
qed

lemma compute_axp_del: "\<exists>axp ls. compute_axp self ''del'' u = Some (Inr (axp, ls))"
proof -
  obtain A where "del_loop (counted (waxp self)) u u 0 = Inr (A, 0 + length u)"
    using del_loop_total[of u u "waxp self" 0] by auto
  then show ?thesis by (simp add: compute_axp_def axp_del_def)
qed

lemma enum_loop_del_returns:
  assumes sound: "sound_solver solve"
  shows "enum_inv feats st \<Longrightarrow> \<exists>st'. enum_loop self solve feats ''del'' st = Some (Inr st')"
proof (induction "card (total_models (length (snd (new_vars [] feats))) (clauses st))"
    arbitrary: st rule: less_induct)
  case less
  note inv = less.prems
  note p = enum_inv_pool[OF inv]
  show ?case
  proof (cases "solve (clauses st)")
    case None
    then show ?thesis by (subst enum_loop.simps) simp
  next
    case (Some m)
    with sound have m: "is_model (clauses st) m" by (simp add: sound_solver_def)
    have "\<forall>l \<in> set m. 1 \<le> \<bar>l\<bar> \<and> \<bar>l\<bar> \<le> int (length (vpool st))"
      using is_model_lits[OF m] p(4) by fastforce
    from read_model_ok[OF this] obtain univ' where u: "read_model (vpool st) m = Inr univ'"
      by blast
    show ?thesis
    proof (cases "wcxp self univ'")
      case True
      obtain cxp ls where c: "compute_cxp self ''del'' univ' = Some (Inr (cxp, ls))"
        using compute_cxp_del by blast
      obtain vs pool where nv: "new_vars (vpool st) cxp = (vs, pool)"
        by (cases "new_vars (vpool st) cxp")
      let ?st = "st\<lparr>vpool := pool, clauses := clauses st @ [map uminus vs],
        cxps := cxps st @ [cxp], iterations := Suc (iterations st),
        printed := printed st @ ls\<rparr>"
      have inv': "enum_inv feats ?st" by (rule enum_inv_cxp_step[OF inv m u c nv])
      from cxp_step_decreases[OF inv m u c nv] p(3)
      have "card (total_models (length (snd (new_vars [] feats))) (clauses ?st))
            < card (total_models (length (snd (new_vars [] feats))) (clauses st))"
        by simp
      from less.hyps[OF this inv'] obtain st' where
        "enum_loop self solve feats ''del'' ?st = Some (Inr st')" by blast
      moreover from Some u True c nv
      have "enum_loop self solve feats ''del'' st = enum_loop self solve feats ''del'' ?st"
        by (subst enum_loop.simps) (simp add: Let_def)
      ultimately show ?thesis by simp
    next
      case False
      let ?fix = "filter (\<lambda>i. i \<notin> set univ') feats"
      obtain axp ls where c: "compute_axp self ''del'' ?fix = Some (Inr (axp, ls))"
        using compute_axp_del by blast
      obtain vs pool where nv: "new_vars (vpool st) axp = (vs, pool)"
        by (cases "new_vars (vpool st) axp")
      let ?st = "st\<lparr>vpool := pool, clauses := clauses st @ [vs],
        axps := axps st @ [axp], iterations := Suc (iterations st),
        printed := printed st @ ls\<rparr>"
      have inv': "enum_inv feats ?st" by (rule enum_inv_axp_step[OF inv m u c nv])
      from axp_step_decreases[OF inv m u c nv] p(3)
      have "card (total_models (length (snd (new_vars [] feats))) (clauses ?st))
            < card (total_models (length (snd (new_vars [] feats))) (clauses st))"
        by simp
      from less.hyps[OF this inv'] obtain st' where
        "enum_loop self solve feats ''del'' ?st = Some (Inr st')" by blast
      moreover from Some u False c nv
      have "enum_loop self solve feats ''del'' st = enum_loop self solve feats ''del'' ?st"
        by (subst enum_loop.simps) (simp add: Let_def)
      ultimately show ?thesis by simp
    qed
  qed
qed

lemma enum_del_terminates:
  assumes sound: "sound_solver solve"
  shows "\<exists>A C n ls. enum self solve feats ''del'' = Some (Inr ((A, C), n, ls))
           \<and> n = length A + length C \<and> n \<le> 2 ^ length feats"
proof -
  from enum_loop_del_returns[OF sound enum_inv_initial, where self = self and feats = feats]
  obtain A C n ls where r: "enum self solve feats ''del'' = Some (Inr ((A, C), n, ls))"
    by (auto simp: enum_def)
  from enum_iterations[OF sound r] r show ?thesis by blast
qed

lemma first_model_Nil: "first_model [] = Some []"
  by (simp add: first_model_def nof_vars_def satisfies_def)

lemma first_model_unit: "first_model [[1]] = Some [1]"
  by (simp add: first_model_def nof_vars_def satisfies_def)

lemma qxp_recur_single: "qxp_recur w [] [x] False = Some [x]"
  by (subst qxp_recur.simps) simp

text \<open>
  C3 fails with \<^verbatim>\<open>alg = 'qxp'\<close> on an instance with a constant prediction: on the one
  feature \<open>[1]\<close> the first iteration finds \<open>[1]\<close>, and the second, whose model declares
  feature 1 universal, hands the empty list to \<open>axp_qxp\<close>, which never returns. The loop
  never reaches a false \<^verbatim>\<open>slv.solve()\<close>. With \<^verbatim>\<open>alg = 'del'\<close> the same call returns the one
  AXp \<open>[]\<close> after one iteration.
\<close>

theorem enum_qxp_constant_prediction:
  "enum (constant_prediction 0) first_model [1] ''qxp'' = None
   \<and> enum (constant_prediction 0) first_model [1] ''del'' = Some (Inr (([[]], []), 1, []))"
proof -
  let ?init = "\<lparr>vpool = snd (new_vars [] [1]), clauses = [], axps = [], cxps = [],
     iterations = 0, printed = []\<rparr>"
  let ?st1 = "\<lparr>vpool = [1], clauses = [[1]], axps = [[1]], cxps = [],
     iterations = Suc 0, printed = []\<rparr>"
  have pool: "snd (new_vars [] [1]) = [1]" by (simp add: new_var_def)
  have step1: "enum_loop (constant_prediction 0) first_model [1] ''qxp'' ?init
        = enum_loop (constant_prediction 0) first_model [1] ''qxp'' ?st1"
    by (subst enum_loop.simps)
       (simp add: pool first_model_Nil constant_prediction_def compute_axp_def axp_qxp_def
          qxp_recur_single report_def new_var_def)
  have step2: "enum_loop (constant_prediction 0) first_model [1] ''qxp'' ?st1 = None"
    by (subst enum_loop.simps)
       (simp add: first_model_unit vpool_obj_def constant_prediction_def compute_axp_def
          axp_qxp_def qxp_recur_Nil)
  have qxp: "enum (constant_prediction 0) first_model [1] ''qxp'' = None"
    unfolding enum_def step1 step2 by simp
  have del: "enum (constant_prediction 0) first_model [1] ''del'' = Some (Inr (([[]], []), 1, []))"
    by code_simp
  from qxp del show ?thesis by simp
qed

end
